theory Spec2Isabelle
  imports Main "HOL-Library.Multiset"
begin

section \<open>The data model of BlockingQueue.h\<close>

text \<open>
  A thread is named by its \<^verbatim>\<open>std::thread::id\<close>. The default-constructed id, which names no
  thread, is \<open>None :: tid option\<close>; the id of a running thread \<open>t\<close> is \<open>Some t\<close>.
\<close>

type_synonym tid = nat

text \<open>\<^verbatim>\<open>std::out_of_range("BlockingQueue is empty.")\<close>, the only exception the header throws.\<close>

datatype error = EmptyQueue

text \<open>
  The template parameter \<^verbatim>\<open>Queue\<close>: "Queue must support push(), pop(), front(), empty()",
  and it is default-constructed by \<^verbatim>\<open>BlockingQueue()\<close>. The container is a value of type
  \<open>'q\<close>, its operations are the fields.
\<close>

record ('a, 'q) Queue =
  q_new :: 'q
  q_push :: "'a \<Rightarrow> 'q \<Rightarrow> 'q"
  q_pop :: "'q \<Rightarrow> 'q"
  q_front :: "'q \<Rightarrow> 'a"
  q_empty :: "'q \<Rightarrow> bool"

text \<open>
  The default argument \<^verbatim>\<open>std::queue<T>\<close>: a sequence, front first. \<^verbatim>\<open>front()\<close> and
  \<^verbatim>\<open>pop()\<close> of an empty \<^verbatim>\<open>std::queue\<close> are undefined; the header calls them only after
  \<^verbatim>\<open>empty()\<close> has returned false.
\<close>

definition std_queue :: "('a, 'a list) Queue" where
  "std_queue =
     \<lparr>q_new = [], q_push = (\<lambda>item c. c @ [item]), q_pop = tl, q_front = hd,
      q_empty = (\<lambda>c. c = [])\<rparr>"

text \<open>
  The template parameter \<^verbatim>\<open>PriorityQueue\<close> of \<^verbatim>\<open>PriorityQueueWrapper\<close>: the wrapper
  inherits from it and uses its \<^verbatim>\<open>top()\<close>.
\<close>

record ('a, 'q) PriorityQueue =
  pq_new :: 'q
  pq_push :: "'a \<Rightarrow> 'q \<Rightarrow> 'q"
  pq_pop :: "'q \<Rightarrow> 'q"
  pq_top :: "'q \<Rightarrow> 'a"
  pq_empty :: "'q \<Rightarrow> bool"

text \<open>
  \<^verbatim>\<open>class PriorityQueueWrapper : public PriorityQueue\<close> with
  \<^verbatim>\<open>front() const { return PriorityQueue::top(); }\<close>: every member is the base class's,
  and \<^verbatim>\<open>front\<close> is added.
\<close>

definition PriorityQueueWrapper :: "('a, 'q) PriorityQueue \<Rightarrow> ('a, 'q) Queue" where
  "PriorityQueueWrapper P =
     \<lparr>q_new = pq_new P, q_push = pq_push P, q_pop = pq_pop P, q_front = pq_top P,
      q_empty = pq_empty P\<rparr>"

text \<open>
  The members of \<^verbatim>\<open>BlockingQueue\<close>: the container \<open>q\<close>; the mutex \<open>m\<close>, as the thread
  that holds it; the condition variable \<open>cv\<close>, as the number of \<^verbatim>\<open>notify_one()\<close> calls
  made on it (each wakes one thread blocked in \<^verbatim>\<open>wait\<close>, if there is one); and the atomic
  \<open>owningThread\<close>.
\<close>

record 'q BlockingQueue =
  q :: 'q
  m :: "tid option"
  cv :: nat
  owningThread :: "tid option"

text \<open>
  What a call does, seen by the calling thread: it returns a value, it throws, it blocks
  in \<^verbatim>\<open>m.lock()\<close> before any effect (the mutex is held), or it is suspended in
  \<^verbatim>\<open>cv.wait\<close>, having left the queue in the given state.
\<close>

datatype ('r, 's) outcome =
  Return 'r 's
  | Throw error 's
  | BlockedOnMutex
  | WaitingOnCv 's

section \<open>The operations\<close>

text \<open>\<^verbatim>\<open>BlockingQueue() : owningThread(std::thread::id())\<close>.\<close>

definition BlockingQueue_new :: "('a, 'q) Queue \<Rightarrow> 'q BlockingQueue" where
  "BlockingQueue_new Q = \<lparr>q = q_new Q, m = None, cv = 0, owningThread = None\<rparr>"

subsection \<open>The lock surface\<close>

text \<open>
  The steps on the members: \<^verbatim>\<open>m.lock()\<close> returns once the mutex is free, and until then
  the caller is blocked (\<open>None\<close>); \<^verbatim>\<open>m.try_lock()\<close> takes the mutex if it is free and tells
  whether it did; \<^verbatim>\<open>m.unlock()\<close> frees it; \<^verbatim>\<open>owningThread.store(v)\<close>. (A thread that
  locks or tries to lock a \<^verbatim>\<open>std::mutex\<close> it holds, or unlocks one it does not hold, has
  undefined behaviour; here the first two find the mutex held as any thread does, and
  the third frees it.)
\<close>

definition mutex_lock :: "tid \<Rightarrow> 'q BlockingQueue \<Rightarrow> 'q BlockingQueue option" where
  "mutex_lock t s = (if m s = None then Some (s\<lparr>m := Some t\<rparr>) else None)"

definition mutex_try_lock :: "tid \<Rightarrow> 'q BlockingQueue \<Rightarrow> bool \<times> 'q BlockingQueue" where
  "mutex_try_lock t s = (if m s = None then (True, s\<lparr>m := Some t\<rparr>) else (False, s))"

definition mutex_unlock :: "'q BlockingQueue \<Rightarrow> 'q BlockingQueue" where
  "mutex_unlock s = s\<lparr>m := None\<rparr>"

definition owner_store :: "tid option \<Rightarrow> 'q BlockingQueue \<Rightarrow> 'q BlockingQueue" where
  "owner_store v s = s\<lparr>owningThread := v\<rparr>"

text \<open>
  \<^verbatim>\<open>m.lock(); owningThread.store(std::this_thread::get_id());\<close> The call is one step of a
  run although it is two statements: between them the mutex is held and the register
  still names no thread, and no call of another thread can tell that state from the one
  after the store (lemma \<open>lock_window\<close>).
\<close>

definition lock :: "tid \<Rightarrow> 'q BlockingQueue \<Rightarrow> (unit, 'q BlockingQueue) outcome" where
  "lock t s =
     (case mutex_lock t s of
        None \<Rightarrow> BlockedOnMutex
      | Some s1 \<Rightarrow> Return () (owner_store (Some t) s1))"

text \<open>
  \<^verbatim>\<open>if (m.try_lock()) { owningThread.store(get_id()); return true; } return false;\<close>
\<close>

definition try_lock :: "tid \<Rightarrow> 'q BlockingQueue \<Rightarrow> (bool, 'q BlockingQueue) outcome" where
  "try_lock t s =
     (let (locked, s1) = mutex_try_lock t s
      in if locked then Return True (owner_store (Some t) s1) else Return False s1)"

text \<open>
  \<^verbatim>\<open>owningThread.store(std::thread::id()); m.unlock();\<close> The caller is not checked. The
  register is cleared while the mutex is still held, and no call of another thread can
  tell the state between the two statements from the one before them (lemma
  \<open>unlock_window\<close>), so this call is one step of a run too.
\<close>

definition unlock :: "'q BlockingQueue \<Rightarrow> 'q BlockingQueue" where
  "unlock s = mutex_unlock (owner_store None s)"

text \<open>\<^verbatim>\<open>return owningThread.load() == std::this_thread::get_id();\<close>\<close>

definition owns_lock :: "tid \<Rightarrow> 'q BlockingQueue \<Rightarrow> bool" where
  "owns_lock t s = (owningThread s = Some t)"

text \<open>
  \<^verbatim>\<open>get_lock()\<close> returns a \<^verbatim>\<open>std::unique_lock\<close> on the queue; the model returns whether
  it owns the lock: no (\<^verbatim>\<open>std::defer_lock\<close>) when the caller owns the queue already, yes
  after \<^verbatim>\<open>lock()\<close> otherwise.
\<close>

definition get_lock :: "tid \<Rightarrow> 'q BlockingQueue \<Rightarrow> (bool, 'q BlockingQueue) outcome" where
  "get_lock t s =
     (if owns_lock t s then Return False s
      else (case lock t s of
              Return u s1 \<Rightarrow> Return True s1
            | Throw e s1 \<Rightarrow> Throw e s1
            | BlockedOnMutex \<Rightarrow> BlockedOnMutex
            | WaitingOnCv s1 \<Rightarrow> WaitingOnCv s1))"

text \<open>The destructor of \<^verbatim>\<open>std::unique_lock\<close>: \<^verbatim>\<open>unlock()\<close> if it owns the lock.\<close>

definition unique_lock_dtor :: "bool \<Rightarrow> 'q BlockingQueue \<Rightarrow> 'q BlockingQueue" where
  "unique_lock_dtor locker s = (if locker then unlock s else s)"

text \<open>
  Leaving the scope of \<^verbatim>\<open>auto locker = get_lock();\<close>: the destructor runs when the body
  returns and when it throws. A thread suspended inside the body has not left the scope.
\<close>

fun scope_exit :: "bool \<Rightarrow> ('r, 'q BlockingQueue) outcome \<Rightarrow> ('r, 'q BlockingQueue) outcome" where
  "scope_exit locker (Return r s) = Return r (unique_lock_dtor locker s)"
| "scope_exit locker (Throw e s) = Throw e (unique_lock_dtor locker s)"
| "scope_exit locker BlockedOnMutex = BlockedOnMutex"
| "scope_exit locker (WaitingOnCv s) = WaitingOnCv s"

subsection \<open>The impl methods ("All impl methods assume the queue is already locked")\<close>

definition empty_impl :: "('a, 'q) Queue \<Rightarrow> 'q BlockingQueue \<Rightarrow> bool" where
  "empty_impl Q s = q_empty Q (q s)"

text \<open>\<^verbatim>\<open>cv.notify_one()\<close>\<close>

definition notify_one :: "'q BlockingQueue \<Rightarrow> 'q BlockingQueue" where
  "notify_one s = s\<lparr>cv := cv s + 1\<rparr>"

text \<open>
  \<^verbatim>\<open>bool wasEmpty = empty_impl(); q.push(item); if (wasEmpty) { cv.notify_one(); }\<close>
  for \<^verbatim>\<open>push_impl(T const&)\<close>, and the same body with \<^verbatim>\<open>std::forward<T>(item)\<close> for
  \<^verbatim>\<open>push_impl(T&&)\<close>.
\<close>

definition push_impl :: "('a, 'q) Queue \<Rightarrow> 'a \<Rightarrow> 'q BlockingQueue \<Rightarrow> 'q BlockingQueue" where
  "push_impl Q item s =
     (let wasEmpty = empty_impl Q s;
          s1 = s\<lparr>q := q_push Q item (q s)\<rparr>
      in if wasEmpty then notify_one s1 else s1)"

definition push_impl_move :: "('a, 'q) Queue \<Rightarrow> 'a \<Rightarrow> 'q BlockingQueue \<Rightarrow> 'q BlockingQueue" where
  "push_impl_move Q item s =
     (let wasEmpty = empty_impl Q s;
          s1 = s\<lparr>q := q_push Q item (q s)\<rparr>
      in if wasEmpty then notify_one s1 else s1)"

text \<open>
  \<^verbatim>\<open>if (empty_impl()) throw std::out_of_range(...);
  auto temp = std::move(q.front()); q.pop(); return std::move(temp);\<close>
\<close>

definition try_pop_impl :: "('a, 'q) Queue \<Rightarrow> 'q BlockingQueue \<Rightarrow> ('a, 'q BlockingQueue) outcome" where
  "try_pop_impl Q s =
     (if empty_impl Q s then Throw EmptyQueue s
      else (let temp = q_front Q (q s);
                s1 = s\<lparr>q := q_pop Q (q s)\<rparr>
            in Return temp s1))"

text \<open>
  \<^verbatim>\<open>cv.wait(locker, [this] () { return !empty_impl(); })\<close>, which the standard defines as
  \<^verbatim>\<open>while (!pred()) wait(locker);\<close>. When the predicate holds the call returns at once.
  Otherwise \<^verbatim>\<open>wait(locker)\<close> calls \<^verbatim>\<open>locker.unlock()\<close>, which is \<^verbatim>\<open>unlock()\<close> of the
  queue, and suspends the thread. What the thread does when it wakes is \<open>pop_impl_wake\<close>.
\<close>

definition cv_wait :: "('a, 'q) Queue \<Rightarrow> 'q BlockingQueue \<Rightarrow> (unit, 'q BlockingQueue) outcome" where
  "cv_wait Q s = (if \<not> empty_impl Q s then Return () s else WaitingOnCv (unlock s))"

text \<open>
  \<^verbatim>\<open>pop_impl\<close>: a \<^verbatim>\<open>unique_lock\<close> adopts the held lock, \<^verbatim>\<open>cv.wait\<close> runs with it, the
  lock is released from the \<^verbatim>\<open>unique_lock\<close> without unlocking, then
  \<^verbatim>\<open>return try_pop_impl();\<close>
\<close>

definition pop_impl :: "('a, 'q) Queue \<Rightarrow> 'q BlockingQueue \<Rightarrow> ('a, 'q BlockingQueue) outcome" where
  "pop_impl Q s =
     (case cv_wait Q s of
        Return u s1 \<Rightarrow> try_pop_impl Q s1
      | Throw e s1 \<Rightarrow> Throw e s1
      | BlockedOnMutex \<Rightarrow> BlockedOnMutex
      | WaitingOnCv s1 \<Rightarrow> WaitingOnCv s1)"

text \<open>
  A thread suspended in \<^verbatim>\<open>wait(locker)\<close> wakes (notified or spuriously): \<^verbatim>\<open>wait\<close> calls
  \<^verbatim>\<open>locker.lock()\<close>, which is \<^verbatim>\<open>lock()\<close> of the queue, and the loop
  \<^verbatim>\<open>while (!pred()) wait(locker);\<close> tests the predicate again; so the rest of \<^verbatim>\<open>pop_impl\<close>
  runs as from its start.
\<close>

definition pop_impl_wake :: "('a, 'q) Queue \<Rightarrow> tid \<Rightarrow> 'q BlockingQueue \<Rightarrow> ('a, 'q BlockingQueue) outcome" where
  "pop_impl_wake Q t s =
     (case lock t s of
        Return u s1 \<Rightarrow> pop_impl Q s1
      | Throw e s1 \<Rightarrow> Throw e s1
      | BlockedOnMutex \<Rightarrow> BlockedOnMutex
      | WaitingOnCv s1 \<Rightarrow> WaitingOnCv s1)"

text \<open>
  \<^verbatim>\<open>while (!empty_impl()) { pop_impl(); }\<close> The loop ends only if the container's
  \<^verbatim>\<open>pop()\<close> empties it at last: \<open>None\<close> is a loop that runs forever.
\<close>

partial_function (option) clear_impl ::
  "('a, 'q) Queue \<Rightarrow> 'q BlockingQueue \<Rightarrow> (unit, 'q BlockingQueue) outcome option" where
  "clear_impl Q s =
     (if \<not> empty_impl Q s then
        (case pop_impl Q s of
           Return x s1 \<Rightarrow> clear_impl Q s1
         | Throw e s1 \<Rightarrow> Some (Throw e s1)
         | BlockedOnMutex \<Rightarrow> Some BlockedOnMutex
         | WaitingOnCv s1 \<Rightarrow> Some (WaitingOnCv s1))
      else Some (Return () s))"

subsection \<open>The public data operations\<close>

text \<open>Each is \<^verbatim>\<open>auto locker = get_lock(); return ..._impl();\<close>\<close>

definition push :: "('a, 'q) Queue \<Rightarrow> 'a \<Rightarrow> tid \<Rightarrow> 'q BlockingQueue \<Rightarrow> (unit, 'q BlockingQueue) outcome" where
  "push Q item t s =
     (case get_lock t s of
        Return locker s1 \<Rightarrow> scope_exit locker (Return () (push_impl Q item s1))
      | Throw e s1 \<Rightarrow> Throw e s1
      | BlockedOnMutex \<Rightarrow> BlockedOnMutex
      | WaitingOnCv s1 \<Rightarrow> WaitingOnCv s1)"

definition push_move :: "('a, 'q) Queue \<Rightarrow> 'a \<Rightarrow> tid \<Rightarrow> 'q BlockingQueue \<Rightarrow> (unit, 'q BlockingQueue) outcome" where
  "push_move Q item t s =
     (case get_lock t s of
        Return locker s1 \<Rightarrow> scope_exit locker (Return () (push_impl_move Q item s1))
      | Throw e s1 \<Rightarrow> Throw e s1
      | BlockedOnMutex \<Rightarrow> BlockedOnMutex
      | WaitingOnCv s1 \<Rightarrow> WaitingOnCv s1)"

definition pop :: "('a, 'q) Queue \<Rightarrow> tid \<Rightarrow> 'q BlockingQueue \<Rightarrow> ('a, 'q BlockingQueue) outcome" where
  "pop Q t s =
     (case get_lock t s of
        Return locker s1 \<Rightarrow> scope_exit locker (pop_impl Q s1)
      | Throw e s1 \<Rightarrow> Throw e s1
      | BlockedOnMutex \<Rightarrow> BlockedOnMutex
      | WaitingOnCv s1 \<Rightarrow> WaitingOnCv s1)"

text \<open>
  The rest of a \<^verbatim>\<open>pop()\<close> call whose thread was suspended in \<^verbatim>\<open>cv.wait\<close>, from its
  wake-up on; \<open>locker\<close> is the \<^verbatim>\<open>unique_lock\<close> that \<^verbatim>\<open>get_lock()\<close> returned to that call.
\<close>

definition pop_wake :: "('a, 'q) Queue \<Rightarrow> tid \<Rightarrow> bool \<Rightarrow> 'q BlockingQueue \<Rightarrow> ('a, 'q BlockingQueue) outcome" where
  "pop_wake Q t locker s = scope_exit locker (pop_impl_wake Q t s)"

definition try_pop :: "('a, 'q) Queue \<Rightarrow> tid \<Rightarrow> 'q BlockingQueue \<Rightarrow> ('a, 'q BlockingQueue) outcome" where
  "try_pop Q t s =
     (case get_lock t s of
        Return locker s1 \<Rightarrow> scope_exit locker (try_pop_impl Q s1)
      | Throw e s1 \<Rightarrow> Throw e s1
      | BlockedOnMutex \<Rightarrow> BlockedOnMutex
      | WaitingOnCv s1 \<Rightarrow> WaitingOnCv s1)"

definition clear :: "('a, 'q) Queue \<Rightarrow> tid \<Rightarrow> 'q BlockingQueue \<Rightarrow> (unit, 'q BlockingQueue) outcome option" where
  "clear Q t s =
     (case get_lock t s of
        Return locker s1 \<Rightarrow> map_option (scope_exit locker) (clear_impl Q s1)
      | Throw e s1 \<Rightarrow> Some (Throw e s1)
      | BlockedOnMutex \<Rightarrow> Some BlockedOnMutex
      | WaitingOnCv s1 \<Rightarrow> Some (WaitingOnCv s1))"

definition empty_bq :: "('a, 'q) Queue \<Rightarrow> tid \<Rightarrow> 'q BlockingQueue \<Rightarrow> (bool, 'q BlockingQueue) outcome" where
  "empty_bq Q t s =
     (case get_lock t s of
        Return locker s1 \<Rightarrow> scope_exit locker (Return (empty_impl Q s1) s1)
      | Throw e s1 \<Rightarrow> Throw e s1
      | BlockedOnMutex \<Rightarrow> BlockedOnMutex
      | WaitingOnCv s1 \<Rightarrow> WaitingOnCv s1)"

section \<open>Threads calling the queue\<close>

text \<open>
  The queue together with the threads suspended in \<^verbatim>\<open>cv.wait\<close> inside a \<^verbatim>\<open>pop()\<close> call:
  \<open>waiting sys t = Some locker\<close> when thread \<open>t\<close> is suspended there and \<open>locker\<close> is the
  \<^verbatim>\<open>unique_lock\<close> of that call (whether it owns the lock it will hold again after the wait).
\<close>

record 'q system =
  bq :: "'q BlockingQueue"
  waiting :: "tid \<Rightarrow> bool option"

definition system_new :: "('a, 'q) Queue \<Rightarrow> 'q system" where
  "system_new Q = \<lparr>bq = BlockingQueue_new Q, waiting = (\<lambda>t. None)\<rparr>"

datatype 'a call =
  Push 'a | PushMove 'a | Pop | TryPop | Clear | IsEmpty | Lock | TryLock | Unlock | OwnsLock

text \<open>
  The mutex serialises the calls, so a run of the threads is a sequence of events in the
  order in which they take effect: a thread's call, from the moment it has the lock (or
  needs none), and the wake-up of a thread suspended in \<^verbatim>\<open>pop()\<close>. The one thing a call
  does before it has the mutex is the load of \<^verbatim>\<open>owns_lock()\<close> in \<^verbatim>\<open>get_lock()\<close>; what it
  reads stays true until the calling thread itself stores to the register, since a thread
  stores nothing but its own id, or no id, and only while it holds the mutex. A suspended
  thread may wake at any time, notified or not, as \<^verbatim>\<open>wait\<close> allows.
\<close>

datatype 'a event = Call tid "'a call" | Wake tid

text \<open>What the thread sees of an event: its call returned, threw, or was suspended.\<close>

datatype 'a result = Done | Value 'a | Flag bool | Failed error | Suspended

text \<open>
  An event has no effect at a state in which its thread would still be blocked in
  \<^verbatim>\<open>m.lock()\<close>: the result is \<open>None\<close>, the event takes place later. Only \<^verbatim>\<open>pop()\<close>
  is ever suspended in \<^verbatim>\<open>cv.wait\<close>: \<^verbatim>\<open>clear_impl\<close> calls \<^verbatim>\<open>pop_impl\<close> on a container
  that is not empty (lemma \<open>clear_impl_Return\<close>).
\<close>

fun complete ::
  "('r \<Rightarrow> 'a result) \<Rightarrow> 'q system \<Rightarrow> ('r, 'q BlockingQueue) outcome \<Rightarrow> ('a result \<times> 'q system) option" where
  "complete f sys (Return r s) = Some (f r, sys\<lparr>bq := s\<rparr>)"
| "complete f sys (Throw e s) = Some (Failed e, sys\<lparr>bq := s\<rparr>)"
| "complete f sys BlockedOnMutex = None"
| "complete f sys (WaitingOnCv s) = None"

fun complete_pop ::
  "tid \<Rightarrow> bool \<Rightarrow> 'q system \<Rightarrow> ('a, 'q BlockingQueue) outcome \<Rightarrow> ('a result \<times> 'q system) option" where
  "complete_pop t locker sys (Return x s) =
     Some (Value x, sys\<lparr>bq := s, waiting := (waiting sys)(t := None)\<rparr>)"
| "complete_pop t locker sys (Throw e s) =
     Some (Failed e, sys\<lparr>bq := s, waiting := (waiting sys)(t := None)\<rparr>)"
| "complete_pop t locker sys BlockedOnMutex = None"
| "complete_pop t locker sys (WaitingOnCv s) =
     Some (Suspended, sys\<lparr>bq := s, waiting := (waiting sys)(t := Some locker)\<rparr>)"

text \<open>
  A call by thread \<open>t\<close>. The \<^verbatim>\<open>unique_lock\<close> that \<^verbatim>\<open>get_lock()\<close> returns to \<^verbatim>\<open>pop()\<close> owns
  the lock exactly when the caller did not own the queue (lemma \<open>get_lock_locker\<close>).
  \<^verbatim>\<open>unlock()\<close> "must be called only by the thread currently recorded as owner": a run in
  which another thread calls it is not a run of the queue's clients. A \<^verbatim>\<open>clear()\<close> whose
  loop never ends has no result.
\<close>

fun call_op :: "('a, 'q) Queue \<Rightarrow> tid \<Rightarrow> 'a call \<Rightarrow> 'q system \<Rightarrow> ('a result \<times> 'q system) option" where
  "call_op Q t (Push item) sys = complete (\<lambda>u. Done) sys (push Q item t (bq sys))"
| "call_op Q t (PushMove item) sys = complete (\<lambda>u. Done) sys (push_move Q item t (bq sys))"
| "call_op Q t Pop sys = complete_pop t (\<not> owns_lock t (bq sys)) sys (pop Q t (bq sys))"
| "call_op Q t TryPop sys = complete Value sys (try_pop Q t (bq sys))"
| "call_op Q t Clear sys =
     (case clear Q t (bq sys) of None \<Rightarrow> None | Some r \<Rightarrow> complete (\<lambda>u. Done) sys r)"
| "call_op Q t IsEmpty sys = complete Flag sys (empty_bq Q t (bq sys))"
| "call_op Q t Lock sys = complete (\<lambda>u. Done) sys (lock t (bq sys))"
| "call_op Q t TryLock sys = complete Flag sys (try_lock t (bq sys))"
| "call_op Q t Unlock sys =
     (if owns_lock t (bq sys) then Some (Done, sys\<lparr>bq := unlock (bq sys)\<rparr>) else None)"
| "call_op Q t OwnsLock sys = Some (Flag (owns_lock t (bq sys)), sys)"

text \<open>A suspended thread makes no call; only a suspended thread wakes.\<close>

fun exec :: "('a, 'q) Queue \<Rightarrow> 'a event \<Rightarrow> 'q system \<Rightarrow> ('a result \<times> 'q system) option" where
  "exec Q (Call t c) sys = (if waiting sys t = None then call_op Q t c sys else None)"
| "exec Q (Wake t) sys =
     (case waiting sys t of
        None \<Rightarrow> None
      | Some locker \<Rightarrow> complete_pop t locker sys (pop_wake Q t locker (bq sys)))"

fun thread_of :: "'a event \<Rightarrow> tid" where
  "thread_of (Call t c) = t"
| "thread_of (Wake t) = t"

text \<open>A run: the events in order, each with its result, and the state at the end.\<close>

fun run ::
  "('a, 'q) Queue \<Rightarrow> 'a event list \<Rightarrow> 'q system \<Rightarrow> (('a event \<times> 'a result) list \<times> 'q system) option" where
  "run Q [] sys = Some ([], sys)"
| "run Q (ev # evs) sys =
     (case exec Q ev sys of
        None \<Rightarrow> None
      | Some (r, sys1) \<Rightarrow>
          (case run Q evs sys1 of
             None \<Rightarrow> None
           | Some (log, sys2) \<Rightarrow> Some ((ev, r) # log, sys2)))"

text \<open>The items pushed and the items delivered in a run, in the order of the events.\<close>

fun item_pushed :: "'a event \<Rightarrow> 'a list" where
  "item_pushed (Call t (Push item)) = [item]"
| "item_pushed (Call t (PushMove item)) = [item]"
| "item_pushed ev = []"

fun item_popped :: "'a result \<Rightarrow> 'a list" where
  "item_popped (Value x) = [x]"
| "item_popped r = []"

definition pushed :: "('a event \<times> 'a result) list \<Rightarrow> 'a list" where
  "pushed log = concat (map (\<lambda>(ev, r). item_pushed ev) log)"

definition popped :: "('a event \<times> 'a result) list \<Rightarrow> 'a list" where
  "popped log = concat (map (\<lambda>(ev, r). item_popped r) log)"

text \<open>Whether some thread calls \<^verbatim>\<open>clear()\<close> in a sequence of events.\<close>

fun is_clear :: "'a event \<Rightarrow> bool" where
  "is_clear (Call t Clear) = True"
| "is_clear ev = False"

definition calls_clear :: "'a event list \<Rightarrow> bool" where
  "calls_clear sched = list_ex is_clear sched"

text \<open>
  Whether thread \<open>t\<close> holds the lock of the queue by its own calls, read from the events of
  a run: it has called \<^verbatim>\<open>lock()\<close>, or \<^verbatim>\<open>try_lock()\<close> with the result true, and has not
  called \<^verbatim>\<open>unlock()\<close> since.
\<close>

fun lock_step :: "tid \<Rightarrow> bool \<Rightarrow> 'a event \<times> 'a result \<Rightarrow> bool" where
  "lock_step t h (Call u Lock, Done) = (if u = t then True else h)"
| "lock_step t h (Call u TryLock, Flag b) = (if u = t \<and> b then True else h)"
| "lock_step t h (Call u Unlock, Done) = (if u = t then False else h)"
| "lock_step t h x = h"

definition holds_lock :: "tid \<Rightarrow> ('a event \<times> 'a result) list \<Rightarrow> bool" where
  "holds_lock t log = foldl (lock_step t) False log"

section \<open>What the template arguments provide\<close>

text \<open>
  A container as the header needs it, seen through the multiset \<open>\<alpha> c\<close> of its elements:
  \<^verbatim>\<open>push\<close> adds the item, \<^verbatim>\<open>empty\<close> tells whether there is none, and on a non-empty
  container \<^verbatim>\<open>front\<close> is one of the elements and \<^verbatim>\<open>pop\<close> removes it.
\<close>

definition bag_queue :: "('a, 'q) Queue \<Rightarrow> ('q \<Rightarrow> 'a multiset) \<Rightarrow> bool" where
  "bag_queue Q \<alpha> \<longleftrightarrow>
     \<alpha> (q_new Q) = {#} \<and>
     (\<forall>x c. \<alpha> (q_push Q x c) = add_mset x (\<alpha> c)) \<and>
     (\<forall>c. q_empty Q c \<longleftrightarrow> \<alpha> c = {#}) \<and>
     (\<forall>c. \<not> q_empty Q c \<longrightarrow> q_front Q c \<in># \<alpha> c \<and> \<alpha> (q_pop Q c) = \<alpha> c - {#q_front Q c#})"

text \<open>
  A priority queue with comparator \<open>cmp\<close>, as \<^verbatim>\<open>std::priority_queue\<close> is: \<^verbatim>\<open>top\<close> is an
  element that no element is greater than, and \<^verbatim>\<open>pop\<close> removes it.
\<close>

definition max_priority_queue ::
  "('a, 'q) PriorityQueue \<Rightarrow> ('a \<Rightarrow> 'a \<Rightarrow> bool) \<Rightarrow> ('q \<Rightarrow> 'a multiset) \<Rightarrow> bool" where
  "max_priority_queue P cmp \<alpha> \<longleftrightarrow>
     \<alpha> (pq_new P) = {#} \<and>
     (\<forall>x c. \<alpha> (pq_push P x c) = add_mset x (\<alpha> c)) \<and>
     (\<forall>c. pq_empty P c \<longleftrightarrow> \<alpha> c = {#}) \<and>
     (\<forall>c. \<not> pq_empty P c \<longrightarrow>
        pq_top P c \<in># \<alpha> c \<and> (\<forall>y. y \<in># \<alpha> c \<longrightarrow> \<not> cmp (pq_top P c) y) \<and>
        \<alpha> (pq_pop P c) = \<alpha> c - {#pq_top P c#})"

text \<open>
  \<^verbatim>\<open>std::priority_queue<T, Container, Compare>\<close> as the C++ standard describes it, on a
  list of the elements: \<^verbatim>\<open>push\<close> adds, \<^verbatim>\<open>top\<close> is a greatest element by the comparator,
  \<^verbatim>\<open>pop\<close> removes that element. (\<^verbatim>\<open>top\<close> and \<^verbatim>\<open>pop\<close> of an empty priority queue are
  undefined.)
\<close>

definition pq_greatest :: "('a \<Rightarrow> 'a \<Rightarrow> bool) \<Rightarrow> 'a list \<Rightarrow> 'a" where
  "pq_greatest cmp c = fold (\<lambda>y best. if cmp best y then y else best) (tl c) (hd c)"

definition std_priority_queue :: "('a \<Rightarrow> 'a \<Rightarrow> bool) \<Rightarrow> ('a, 'a list) PriorityQueue" where
  "std_priority_queue cmp =
     \<lparr>pq_new = [], pq_push = (\<lambda>item c. item # c),
      pq_pop = (\<lambda>c. remove1 (pq_greatest cmp c) c), pq_top = pq_greatest cmp,
      pq_empty = (\<lambda>c. c = [])\<rparr>"

section \<open>Basic facts\<close>

lemma lock_eq:
  "lock t s =
     (if m s = None then Return () (s\<lparr>m := Some t, owningThread := Some t\<rparr>) else BlockedOnMutex)"
  by (simp add: lock_def mutex_lock_def owner_store_def)

lemma try_lock_eq:
  "try_lock t s =
     (if m s = None then Return True (s\<lparr>m := Some t, owningThread := Some t\<rparr>)
      else Return False s)"
  by (simp add: try_lock_def mutex_try_lock_def owner_store_def)

lemma unlock_eq: "unlock s = s\<lparr>owningThread := None, m := None\<rparr>"
  by (simp add: unlock_def mutex_unlock_def owner_store_def)

subsection \<open>The operations, case by case\<close>

lemma get_lock_cases:
  "get_lock t s =
     (if owns_lock t s then Return False s
      else if m s = None then Return True (s\<lparr>m := Some t, owningThread := Some t\<rparr>)
      else BlockedOnMutex)"
  by (simp add: get_lock_def lock_eq)

lemma get_lock_locker:
  "get_lock t s = Return locker s1 \<Longrightarrow> locker = (\<not> owns_lock t s)"
  by (simp add: get_lock_cases split: if_splits)

subsection \<open>The loop of \<^verbatim>\<open>clear_impl\<close>\<close>

lemma clear_impl_Return:
  assumes "clear_impl Q s = Some r"
  shows "\<exists>s'. r = Return () s' \<and> q_empty Q (q s') \<and> m s' = m s \<and> cv s' = cv s \<and> owningThread s' = owningThread s"
  using assms
proof (induct rule: clear_impl.raw_induct[rotated 1, consumes 1])
  case (1 f Q s r)
  note IH = 1(1) and body = 1(2)
  show ?case
  proof (cases "q_empty Q (q s)")
    case True
    with body show ?thesis by (auto simp: empty_impl_def)
  next
    case False
    with body have "f Q (s\<lparr>q := q_pop Q (q s)\<rparr>) = Some r"
      by (simp add: pop_impl_def cv_wait_def try_pop_impl_def empty_impl_def Let_def)
    from IH[OF this] show ?thesis by simp
  qed
qed

lemma clear_impl_terminates:
  assumes "bag_queue Q \<alpha>"
  shows "\<exists>s'. clear_impl Q s = Some (Return () s')"
proof (induction "size (\<alpha> (q s))" arbitrary: s rule: less_induct)
  case less
  show ?case
  proof (cases "q_empty Q (q s)")
    case True
    then show ?thesis by (subst clear_impl.simps) (simp add: empty_impl_def)
  next
    case False
    let ?s1 = "s\<lparr>q := q_pop Q (q s)\<rparr>"
    from assms False have "\<alpha> (q ?s1) = \<alpha> (q s) - {#q_front Q (q s)#}" and "q_front Q (q s) \<in># \<alpha> (q s)"
      by (simp_all add: bag_queue_def)
    then have "size (\<alpha> (q ?s1)) < size (\<alpha> (q s))"
      by (simp add: size_Diff1_less)
    from less[OF this] obtain s' where "clear_impl Q ?s1 = Some (Return () s')" by blast
    with False show ?thesis
      by (subst clear_impl.simps) (simp add: pop_impl_def cv_wait_def try_pop_impl_def empty_impl_def Let_def)
  qed
qed

lemma std_queue_bag: "bag_queue std_queue mset"
  by (auto simp: bag_queue_def std_queue_def neq_Nil_conv)

lemma clear_impl_std_queue:
  "clear_impl std_queue s = Some (Return () (s\<lparr>q := []\<rparr>))"
proof (induction "q s" arbitrary: s)
  case Nil
  then show ?case by (subst clear_impl.simps) (simp add: empty_impl_def std_queue_def)
next
  case (Cons x xs)
  from Cons(2) have "xs = q (s\<lparr>q := xs\<rparr>)" by simp
  from Cons(1)[OF this] Cons(2)[symmetric] show ?case
    by (subst clear_impl.simps) (simp add: pop_impl_def cv_wait_def try_pop_impl_def empty_impl_def Let_def std_queue_def)
qed


subsection \<open>The public operations, by the state of the lock\<close>

lemma push_cases:
  "push Q item t s =
     (if owns_lock t s then Return () (push_impl Q item s)
      else if m s = None then Return () (unlock (push_impl Q item (s\<lparr>m := Some t, owningThread := Some t\<rparr>)))
      else BlockedOnMutex)"
  by (simp add: push_def get_lock_cases unique_lock_dtor_def)

lemma push_move_cases:
  "push_move Q item t s =
     (if owns_lock t s then Return () (push_impl_move Q item s)
      else if m s = None then Return () (unlock (push_impl_move Q item (s\<lparr>m := Some t, owningThread := Some t\<rparr>)))
      else BlockedOnMutex)"
  by (simp add: push_move_def get_lock_cases unique_lock_dtor_def)

lemma try_pop_cases:
  "try_pop Q t s =
     (if owns_lock t s then try_pop_impl Q s
      else if m s = None then scope_exit True (try_pop_impl Q (s\<lparr>m := Some t, owningThread := Some t\<rparr>))
      else BlockedOnMutex)"
  by (cases "try_pop_impl Q s") (simp_all add: try_pop_def get_lock_cases unique_lock_dtor_def)

lemma pop_cases:
  "pop Q t s =
     (if owns_lock t s then pop_impl Q s
      else if m s = None then scope_exit True (pop_impl Q (s\<lparr>m := Some t, owningThread := Some t\<rparr>))
      else BlockedOnMutex)"
  by (cases "pop_impl Q s") (simp_all add: pop_def get_lock_cases unique_lock_dtor_def)

lemma empty_bq_cases:
  "empty_bq Q t s =
     (if owns_lock t s then Return (empty_impl Q s) s
      else if m s = None then Return (empty_impl Q s) (unlock (s\<lparr>m := Some t, owningThread := Some t\<rparr>))
      else BlockedOnMutex)"
  by (simp add: empty_bq_def get_lock_cases unique_lock_dtor_def empty_impl_def)

lemma scope_exit_False: "scope_exit False r = r"
  by (cases r) (simp_all add: unique_lock_dtor_def)

lemma map_scope_exit_False: "map_option (scope_exit False) x = x"
  by (cases x) (simp_all add: scope_exit_False)

lemma clear_cases:
  "clear Q t s =
     (if owns_lock t s then clear_impl Q s
      else if m s = None then map_option (scope_exit True) (clear_impl Q (s\<lparr>m := Some t, owningThread := Some t\<rparr>))
      else Some BlockedOnMutex)"
  by (simp add: clear_def get_lock_cases map_scope_exit_False)

lemma try_pop_impl_cases:
  "try_pop_impl Q s =
     (if q_empty Q (q s) then Throw EmptyQueue s
      else Return (q_front Q (q s)) (s\<lparr>q := q_pop Q (q s)\<rparr>))"
  by (simp add: try_pop_impl_def empty_impl_def Let_def)

lemma pop_impl_cases:
  "pop_impl Q s =
     (if q_empty Q (q s) then WaitingOnCv (unlock s)
      else Return (q_front Q (q s)) (s\<lparr>q := q_pop Q (q s)\<rparr>))"
  by (simp add: pop_impl_def cv_wait_def try_pop_impl_cases empty_impl_def)

lemma pop_wake_cases:
  "pop_wake Q t locker s =
     (if m s = None then scope_exit locker (pop_impl Q (s\<lparr>m := Some t, owningThread := Some t\<rparr>))
      else BlockedOnMutex)"
  by (simp add: pop_wake_def pop_impl_wake_def lock_eq)

lemma push_impl_cases:
  "push_impl Q item s =
     (if q_empty Q (q s) then s\<lparr>q := q_push Q item (q s), cv := cv s + 1\<rparr>
      else s\<lparr>q := q_push Q item (q s)\<rparr>)"
  by (simp add: push_impl_def empty_impl_def notify_one_def Let_def)

lemma push_impl_move_eq: "push_impl_move Q item s = push_impl Q item s"
  by (simp add: push_impl_move_def push_impl_def)

lemmas op_cases = push_cases push_move_cases try_pop_cases pop_cases empty_bq_cases clear_cases
  try_pop_impl_cases pop_impl_cases pop_wake_cases push_impl_cases push_impl_move_eq

subsection \<open>The register and the mutex agree in every run\<close>

lemma exec_lock_inv:
  assumes "exec Q ev sys = Some (r, sys')" and "owningThread (bq sys) = m (bq sys)"
  shows "owningThread (bq sys') = m (bq sys')"
proof (cases ev)
  case (Call t c)
  show ?thesis
  proof (cases c)
    case Clear
    with assms Call show ?thesis
      by (auto simp: op_cases owns_lock_def unlock_eq unique_lock_dtor_def
          split: if_splits option.splits dest!: clear_impl_Return)
  qed (use assms Call in \<open>auto simp: op_cases owns_lock_def unlock_eq lock_eq try_lock_eq unique_lock_dtor_def
          split: if_splits option.splits\<close>)
next
  case (Wake t)
  with assms show ?thesis
    by (auto simp: op_cases owns_lock_def unlock_eq unique_lock_dtor_def
          split: if_splits option.splits)
qed


lemma run_Cons:
  "run Q (ev # evs) sys = Some (log, sys') \<longleftrightarrow>
     (\<exists>r sys1 log1. exec Q ev sys = Some (r, sys1) \<and> run Q evs sys1 = Some (log1, sys') \<and>
        log = (ev, r) # log1)"
  by (auto split: option.splits)

lemma run_invariant:
  assumes "run Q sched sys = Some (log, sys')" and "I sys"
    and step: "\<And>ev r s1 s2. I s1 \<Longrightarrow> exec Q ev s1 = Some (r, s2) \<Longrightarrow> I s2"
  shows "I sys'"
  using assms(1,2)
proof (induction sched arbitrary: sys log)
  case Nil
  then show ?case by simp
next
  case (Cons ev evs)
  from Cons.prems(1) obtain r sys1 log1 where
    e: "exec Q ev sys = Some (r, sys1)" and r: "run Q evs sys1 = Some (log1, sys')"
    unfolding run_Cons by blast
  from step[OF Cons.prems(2) e] have "I sys1" .
  from Cons.IH[OF r this] show ?case .
qed

lemma run_lock_inv:
  assumes "run Q sched sys = Some (log, sys')" and "owningThread (bq sys) = m (bq sys)"
  shows "owningThread (bq sys') = m (bq sys')"
  using assms(1,2)
proof (rule run_invariant[where I = "\<lambda>x. owningThread (bq x) = m (bq x)"])
  fix ev r s1 s2
  assume "owningThread (bq s1) = m (bq s1)" and "exec Q ev s1 = Some (r, s2)"
  then show "owningThread (bq s2) = m (bq s2)" by (rule exec_lock_inv[rotated])
qed

lemma system_new_lock_inv: "owningThread (bq (system_new Q)) = m (bq (system_new Q))"
  by (simp add: system_new_def BlockingQueue_new_def)

subsection \<open>The items in a run\<close>

lemma exec_bag:
  assumes "bag_queue Q \<alpha>" and "exec Q ev sys = Some (r, sys')" and "\<forall>t. ev \<noteq> Call t Clear"
  shows "mset (item_popped r) + \<alpha> (q (bq sys')) = \<alpha> (q (bq sys)) + mset (item_pushed ev)"
proof (cases ev)
  case (Call t c)
  from assms(1) have
    push: "\<And>x c. \<alpha> (q_push Q x c) = add_mset x (\<alpha> c)" and
    pop: "\<And>c. \<not> q_empty Q c \<Longrightarrow> add_mset (q_front Q c) (\<alpha> (q_pop Q c)) = \<alpha> c"
    by (simp_all add: bag_queue_def)
  from assms(2,3) Call show ?thesis
    by (cases c) (auto simp: op_cases push pop owns_lock_def unlock_eq lock_eq try_lock_eq unique_lock_dtor_def
          split: if_splits option.splits)
next
  case (Wake t)
  from assms(1) have
    pop: "\<And>c. \<not> q_empty Q c \<Longrightarrow> add_mset (q_front Q c) (\<alpha> (q_pop Q c)) = \<alpha> c"
    by (simp add: bag_queue_def)
  from assms(2) Wake show ?thesis
    by (auto simp: op_cases pop unlock_eq unique_lock_dtor_def split: if_splits option.splits)
qed

lemma exec_clear_bag:
  assumes "exec Q (Call t Clear) sys = Some (r, sys')"
  shows "q_empty Q (q (bq sys')) \<and> r = Done"
  using assms
  by (auto simp: op_cases unlock_eq unique_lock_dtor_def split: if_splits option.splits dest!: clear_impl_Return)


lemma pushed_Cons: "pushed ((ev, r) # log) = item_pushed ev @ pushed log"
  by (simp add: pushed_def)

lemma popped_Cons: "popped ((ev, r) # log) = item_popped r @ popped log"
  by (simp add: popped_def)

lemma is_clear_iff: "is_clear ev \<longleftrightarrow> (\<exists>t. ev = Call t Clear)"
  by (cases ev rule: is_clear.cases) simp_all

lemma calls_clear_Cons: "calls_clear (ev # evs) \<longleftrightarrow> (\<exists>t. ev = Call t Clear) \<or> calls_clear evs"
  by (simp add: calls_clear_def is_clear_iff)

lemma run_bag_eq:
  assumes "bag_queue Q \<alpha>"
  shows "run Q sched sys = Some (log, sys') \<Longrightarrow> \<not> calls_clear sched \<Longrightarrow>
     mset (popped log) + \<alpha> (q (bq sys')) = \<alpha> (q (bq sys)) + mset (pushed log)"
proof (induction sched arbitrary: sys log)
  case Nil
  then show ?case by (simp add: pushed_def popped_def)
next
  case (Cons ev evs)
  from Cons.prems(1) obtain r sys1 log1 where
    e: "exec Q ev sys = Some (r, sys1)" and r: "run Q evs sys1 = Some (log1, sys')"
    and l: "log = (ev, r) # log1"
    unfolding run_Cons by blast
  from Cons.prems(2) have nc: "\<forall>t. ev \<noteq> Call t Clear" and nc': "\<not> calls_clear evs"
    by (simp_all add: calls_clear_Cons)
  from exec_bag[OF assms e nc] Cons.IH[OF r nc'] show ?case
    by (simp add: l pushed_Cons popped_Cons) (metis add.assoc add.commute)
qed

lemma exec_bag_le:
  assumes "bag_queue Q \<alpha>" and "exec Q ev sys = Some (r, sys')"
  shows "mset (item_popped r) + \<alpha> (q (bq sys')) \<subseteq># \<alpha> (q (bq sys)) + mset (item_pushed ev)"
proof (cases "\<exists>t. ev = Call t Clear")
  case True
  then obtain t where ev: "ev = Call t Clear" by blast
  from exec_clear_bag[OF assms(2)[unfolded ev]] assms(1) have "\<alpha> (q (bq sys')) = {#}" "r = Done"
    by (simp_all add: bag_queue_def)
  then show ?thesis by (simp add: ev)
next
  case False
  then have "\<forall>t. ev \<noteq> Call t Clear" by blast
  from exec_bag[OF assms this] show ?thesis by simp
qed

lemma run_bag_le:
  assumes "bag_queue Q \<alpha>"
  shows "run Q sched sys = Some (log, sys') \<Longrightarrow>
     mset (popped log) + \<alpha> (q (bq sys')) \<subseteq># \<alpha> (q (bq sys)) + mset (pushed log)"
proof (induction sched arbitrary: sys log)
  case Nil
  then show ?case by (simp add: pushed_def popped_def)
next
  case (Cons ev evs)
  from Cons.prems(1) obtain r sys1 log1 where
    e: "exec Q ev sys = Some (r, sys1)" and r: "run Q evs sys1 = Some (log1, sys')"
    and l: "log = (ev, r) # log1"
    unfolding run_Cons by blast
  have "mset (popped log) + \<alpha> (q (bq sys')) = mset (item_popped r) + (mset (popped log1) + \<alpha> (q (bq sys')))"
    by (simp add: l popped_Cons)
  also have "\<dots> \<subseteq># mset (item_popped r) + (\<alpha> (q (bq sys1)) + mset (pushed log1))"
    using Cons.IH[OF r] by simp
  also have "\<dots> = (mset (item_popped r) + \<alpha> (q (bq sys1))) + mset (pushed log1)"
    by simp
  also have "\<dots> \<subseteq># (\<alpha> (q (bq sys)) + mset (item_pushed ev)) + mset (pushed log1)"
    using exec_bag_le[OF assms e] by simp
  also have "\<dots> = \<alpha> (q (bq sys)) + mset (pushed log)"
    by (simp add: l pushed_Cons)
  finally show ?case .
qed

subsection \<open>The order of the items in a run on \<^verbatim>\<open>std::queue\<close>\<close>

lemma exec_fifo:
  assumes "exec std_queue ev sys = Some (r, sys')" and "\<forall>t. ev \<noteq> Call t Clear"
  shows "item_popped r @ q (bq sys') = q (bq sys) @ item_pushed ev"
proof (cases ev)
  case (Call t c)
  have pop: "\<And>c. c \<noteq> [] \<Longrightarrow> hd c # tl c = c" by simp
  from assms Call show ?thesis
    by (cases c) (auto simp: op_cases std_queue_def owns_lock_def unlock_eq lock_eq try_lock_eq unique_lock_dtor_def
          split: if_splits option.splits)
next
  case (Wake t)
  from assms(1) Wake show ?thesis
    by (auto simp: op_cases std_queue_def unlock_eq unique_lock_dtor_def split: if_splits option.splits)
qed

lemma run_fifo:
  "run std_queue sched sys = Some (log, sys') \<Longrightarrow> \<not> calls_clear sched \<Longrightarrow>
     popped log @ q (bq sys') = q (bq sys) @ pushed log"
proof (induction sched arbitrary: sys log)
  case Nil
  then show ?case by (simp add: pushed_def popped_def)
next
  case (Cons ev evs)
  from Cons.prems(1) obtain r sys1 log1 where
    e: "exec std_queue ev sys = Some (r, sys1)" and r: "run std_queue evs sys1 = Some (log1, sys')"
    and l: "log = (ev, r) # log1"
    unfolding run_Cons by blast
  from Cons.prems(2) have nc: "\<forall>t. ev \<noteq> Call t Clear" and nc': "\<not> calls_clear evs"
    by (simp_all add: calls_clear_Cons)
  have "popped log @ q (bq sys') = item_popped r @ (popped log1 @ q (bq sys'))"
    by (simp add: l popped_Cons)
  also have "\<dots> = item_popped r @ q (bq sys1) @ pushed log1"
    using Cons.IH[OF r nc'] by simp
  also have "\<dots> = (q (bq sys) @ item_pushed ev) @ pushed log1"
    using exec_fifo[OF e nc] by simp
  also have "\<dots> = q (bq sys) @ pushed log"
    by (simp add: l pushed_Cons)
  finally show ?case .
qed


subsection \<open>The events that fail\<close>

lemma exec_Failed:
  assumes "exec Q ev sys = Some (Failed e, sys')"
  shows "e = EmptyQueue \<and> (\<exists>t. ev = Call t TryPop) \<and> q_empty Q (q (bq sys))"
proof (cases ev)
  case (Call t c)
  show ?thesis
  proof (cases c)
    case Clear
    with assms Call show ?thesis
      by (auto simp: op_cases split: if_splits option.splits dest!: clear_impl_Return)
  qed (use assms Call in \<open>auto simp: op_cases lock_eq try_lock_eq split: if_splits option.splits\<close>)
next
  case (Wake t)
  with assms show ?thesis
    by (auto simp: op_cases split: if_splits option.splits)
qed

lemma run_Failed:
  "run Q sched sys = Some (log, sys') \<Longrightarrow> (ev, Failed e) \<in> set log \<Longrightarrow>
     e = EmptyQueue \<and> (\<exists>t. ev = Call t TryPop)"
proof (induction sched arbitrary: sys log)
  case Nil
  then show ?case by simp
next
  case (Cons ev1 evs)
  from Cons.prems(1) obtain r sys1 log1 where
    e: "exec Q ev1 sys = Some (r, sys1)" and r: "run Q evs sys1 = Some (log1, sys')"
    and l: "log = (ev1, r) # log1"
    unfolding run_Cons by blast
  from Cons.prems(2) l consider "ev = ev1" "r = Failed e" | "(ev, Failed e) \<in> set log1" by auto
  then show ?case
  proof cases
    case 1
    with e exec_Failed[of Q ev1 sys e sys1] show ?thesis by simp
  next
    case 2
    from Cons.IH[OF r this] show ?thesis .
  qed
qed

lemmas model_defs = BlockingQueue_new_def system_new_def std_queue_def lock_eq try_lock_eq unlock_eq
  owns_lock_def get_lock_def unique_lock_dtor_def empty_impl_def notify_one_def push_impl_def
  push_impl_move_def try_pop_impl_def cv_wait_def pop_impl_def pop_impl_wake_def push_def
  push_move_def pop_def pop_wake_def try_pop_def empty_bq_def pushed_def popped_def

section \<open>Facts about runs, clearing, priority queues and lock ownership\<close>

subsection \<open>A producer, then a consumer\<close>

lemma run_append:
  "run Q (xs @ ys) sys =
     (case run Q xs sys of
        None \<Rightarrow> None
      | Some (log1, sys1) \<Rightarrow>
          (case run Q ys sys1 of
             None \<Rightarrow> None
           | Some (log2, sys2) \<Rightarrow> Some (log1 @ log2, sys2)))"
  by (induction xs arbitrary: sys) (auto split: option.splits)

lemma run_pushes:
  assumes "m (bq sys) = None" and "owningThread (bq sys) = None" and "waiting sys p = None"
  shows "\<exists>n. run std_queue (map (\<lambda>x. Call p (Push x)) items) sys =
     Some (map (\<lambda>x. (Call p (Push x), Done)) items,
           sys\<lparr>bq := (bq sys)\<lparr>q := q (bq sys) @ items, cv := n\<rparr>\<rparr>)"
  using assms
proof (induction items arbitrary: sys)
  case Nil
  have "sys\<lparr>bq := (bq sys)\<lparr>q := q (bq sys), cv := cv (bq sys)\<rparr>\<rparr> = sys" by simp
  then show ?case by (intro exI[of _ "cv (bq sys)"]) simp
next
  case (Cons x xs)
  let ?s1 = "unlock (push_impl std_queue x ((bq sys)\<lparr>m := Some p, owningThread := Some p\<rparr>))"
  let ?sys1 = "sys\<lparr>bq := ?s1\<rparr>"
  from Cons.prems have e: "exec std_queue (Call p (Push x)) sys = Some (Done, ?sys1)"
    by (simp add: push_cases owns_lock_def)
  have "m (bq ?sys1) = None" "owningThread (bq ?sys1) = None" "waiting ?sys1 p = None"
    using Cons.prems by (simp_all add: unlock_eq)
  from Cons.IH[OF this] obtain n where
    r: "run std_queue (map (\<lambda>x. Call p (Push x)) xs) ?sys1 =
     Some (map (\<lambda>x. (Call p (Push x), Done)) xs,
           ?sys1\<lparr>bq := (bq ?sys1)\<lparr>q := q (bq ?sys1) @ xs, cv := n\<rparr>\<rparr>)" by blast
  have "?sys1\<lparr>bq := (bq ?sys1)\<lparr>q := q (bq ?sys1) @ xs, cv := n\<rparr>\<rparr> =
     sys\<lparr>bq := (bq sys)\<lparr>q := q (bq sys) @ x # xs, cv := n\<rparr>\<rparr>"
    using Cons.prems by (simp add: unlock_eq push_impl_cases std_queue_def)
  with e r show ?case by (intro exI[of _ n]) simp
qed

lemma run_pops:
  assumes "m (bq sys) = None" and "owningThread (bq sys) = None" and "waiting sys c = None"
    and "n \<le> length (q (bq sys))"
  shows "run std_queue (replicate n (Call c Pop)) sys =
     Some (map (\<lambda>x. (Call c Pop, Value x)) (take n (q (bq sys))),
           sys\<lparr>bq := (bq sys)\<lparr>q := drop n (q (bq sys))\<rparr>\<rparr>)"
  using assms
proof (induction n arbitrary: sys)
  case 0
  then show ?case by simp
next
  case (Suc n)
  from Suc.prems(4) obtain x xs where qs: "q (bq sys) = x # xs" by (cases "q (bq sys)") auto
  let ?sys1 = "sys\<lparr>bq := (bq sys)\<lparr>q := xs\<rparr>\<rparr>"
  have w: "(waiting sys)(c := None) = waiting sys" using Suc.prems(3) by (simp add: fun_upd_idem)
  from Suc.prems qs have e: "exec std_queue (Call c Pop) sys = Some (Value x, ?sys1)"
    by (simp add: pop_cases pop_impl_cases owns_lock_def std_queue_def unique_lock_dtor_def unlock_eq w)
  have "m (bq ?sys1) = None" "owningThread (bq ?sys1) = None" "waiting ?sys1 c = None"
    "n \<le> length (q (bq ?sys1))"
    using Suc.prems qs by simp_all
  from Suc.IH[OF this] e qs show ?case by simp
qed

lemma run_pushes_then_pops:
  "\<exists>log sys. run std_queue (map (\<lambda>x. Call p (Push x)) items @ replicate (length items) (Call c Pop))
       (system_new std_queue) = Some (log, sys) \<and>
     popped log = items \<and> pushed log = items \<and> q (bq sys) = []"
proof -
  let ?sys0 = "system_new std_queue :: 'a list system"
  have "m (bq ?sys0) = None" "owningThread (bq ?sys0) = None" "waiting ?sys0 p = None"
    by (simp_all add: system_new_def BlockingQueue_new_def)
  from run_pushes[OF this, of items] obtain n where
    r1: "run std_queue (map (\<lambda>x. Call p (Push x)) items) ?sys0 =
     Some (map (\<lambda>x. (Call p (Push x), Done)) items,
           ?sys0\<lparr>bq := (bq ?sys0)\<lparr>q := q (bq ?sys0) @ items, cv := n\<rparr>\<rparr>)" by blast
  let ?sys1 = "?sys0\<lparr>bq := (bq ?sys0)\<lparr>q := q (bq ?sys0) @ items, cv := n\<rparr>\<rparr>"
  have q1: "q (bq ?sys1) = items" by (simp add: system_new_def BlockingQueue_new_def std_queue_def)
  have "m (bq ?sys1) = None" "owningThread (bq ?sys1) = None" "waiting ?sys1 c = None"
    "length items \<le> length (q (bq ?sys1))"
    by (simp_all add: system_new_def BlockingQueue_new_def)
  from run_pops[OF this] have
    r2: "run std_queue (replicate (length items) (Call c Pop)) ?sys1 =
     Some (map (\<lambda>x. (Call c Pop, Value x)) (take (length items) (q (bq ?sys1))),
           ?sys1\<lparr>bq := (bq ?sys1)\<lparr>q := drop (length items) (q (bq ?sys1))\<rparr>\<rparr>)" .
  have p1: "popped (map (\<lambda>x. (Call p (Push x), Done)) items @ map (\<lambda>x. (Call c Pop, Value x)) items) = items"
    by (simp add: popped_def comp_def)
  have p2: "pushed (map (\<lambda>x. (Call p (Push x), Done)) items @ map (\<lambda>x. (Call c Pop, Value x)) items) = items"
    by (simp add: pushed_def comp_def)
  show ?thesis
    unfolding run_append r1 using r2 q1 p1 p2 by simp
qed

subsection \<open>Pushing after \<^verbatim>\<open>clear()\<close>\<close>

lemma fold_push_impl_bag:
  assumes "bag_queue Q \<alpha>"
  shows "\<alpha> (q (fold (push_impl Q) items s)) = \<alpha> (q s) + mset items"
proof (induction items arbitrary: s)
  case Nil
  then show ?case by simp
next
  case (Cons x xs)
  from assms have "\<alpha> (q (push_impl Q x s)) = add_mset x (\<alpha> (q s))"
    by (simp add: push_impl_cases bag_queue_def)
  with Cons.IH[of "push_impl Q x s"] show ?case by simp
qed

lemma fold_push_impl_fifo:
  "q (fold (push_impl std_queue) items s) = q s @ items"
proof (induction items arbitrary: s)
  case Nil
  then show ?case by simp
next
  case (Cons x xs)
  have "q (push_impl std_queue x s) = q s @ [x]"
    by (simp add: push_impl_cases std_queue_def)
  with Cons.IH[of "push_impl std_queue x s"] show ?case by simp
qed

lemma exec_clear_then_empty:
  assumes "exec Q (Call t Clear) sys = Some (r, sys1)"
    and "exec Q (Call u IsEmpty) sys1 = Some (r', sys2)"
  shows "r = Done \<and> r' = Flag True"
proof -
  from exec_clear_bag[OF assms(1)] have e: "q_empty Q (q (bq sys1))" and r: "r = Done" by simp_all
  from assms(2) e have "r' = Flag True"
    by (auto simp: empty_bq_cases empty_impl_def split: if_splits)
  with r show ?thesis by simp
qed

lemma clear_returns:
  assumes "bag_queue Q \<alpha>" and "owns_lock t s \<or> m s = None"
  shows "\<exists>s1. clear Q t s = Some (Return () s1) \<and> q_empty Q (q s1) \<and> cv s1 = cv s \<and>
     (owns_lock t s \<longrightarrow> m s1 = m s \<and> owningThread s1 = owningThread s) \<and>
     (\<not> owns_lock t s \<longrightarrow> m s1 = None \<and> owningThread s1 = None)"
proof (cases "owns_lock t s")
  case True
  from clear_impl_terminates[OF assms(1), of s] obtain s1 where
    c: "clear_impl Q s = Some (Return () s1)" by blast
  from clear_impl_Return[OF c] True c show ?thesis
    by (simp add: clear_cases)
next
  case False
  with assms(2) have mn: "m s = None" by simp
  let ?s0 = "s\<lparr>m := Some t, owningThread := Some t\<rparr>"
  from clear_impl_terminates[OF assms(1), of ?s0] obtain s1 where
    c: "clear_impl Q ?s0 = Some (Return () s1)" by blast
  from clear_impl_Return[OF c] False mn c show ?thesis
    by (simp add: clear_cases unique_lock_dtor_def unlock_eq)
qed

subsection \<open>Priority queues\<close>

lemma wrapper_bag:
  "max_priority_queue P cmp \<alpha> \<Longrightarrow> bag_queue (PriorityQueueWrapper P) \<alpha>"
  by (simp add: max_priority_queue_def bag_queue_def PriorityQueueWrapper_def)

lemma fold_greatest:
  assumes irrefl: "\<And>x. \<not> cmp x x" and trans: "\<And>x y z. cmp x y \<Longrightarrow> cmp y z \<Longrightarrow> cmp x z"
  shows "fold (\<lambda>y best. if cmp best y then y else best) xs b \<in> set (b # xs) \<and>
     (\<forall>y \<in> set (b # xs). \<not> cmp (fold (\<lambda>y best. if cmp best y then y else best) xs b) y) \<and>
     (fold (\<lambda>y best. if cmp best y then y else best) xs b = b \<or>
      cmp b (fold (\<lambda>y best. if cmp best y then y else best) xs b))"
proof (induction xs arbitrary: b)
  case Nil
  then show ?case by (simp add: irrefl)
next
  case (Cons x xs)
  let ?f = "\<lambda>y best. if cmp best y then y else best"
  show ?case
  proof (cases "cmp b x")
    case True
    let ?g = "fold ?f xs x"
    from Cons.IH[of x] have 1: "?g \<in> set (x # xs)" and 2: "\<forall>y \<in> set (x # xs). \<not> cmp ?g y"
      and 3: "?g = x \<or> cmp x ?g" by blast+
    from 3 have 4: "cmp b ?g"
    proof
      assume "?g = x" with True show ?thesis by simp
    next
      assume "cmp x ?g" with True show ?thesis by (rule trans)
    qed
    have "\<not> cmp ?g b"
    proof
      assume "cmp ?g b"
      from this True have "cmp ?g x" by (rule trans)
      with 2 show False by simp
    qed
    with 1 2 4 True show ?thesis by simp
  next
    case False
    let ?g = "fold ?f xs b"
    from Cons.IH[of b] have 1: "?g \<in> set (b # xs)" and 2: "\<forall>y \<in> set (b # xs). \<not> cmp ?g y"
      and 3: "?g = b \<or> cmp b ?g" by blast+
    have "\<not> cmp ?g x"
    proof
      assume g: "cmp ?g x"
      from 3 show False
      proof
        assume "?g = b" with g False show False by simp
      next
        assume "cmp b ?g" then have "cmp b x" using g by (rule trans)
        with False show False by simp
      qed
    qed
    with 1 2 3 False show ?thesis by auto
  qed
qed

lemma std_priority_queue_max:
  assumes irrefl: "\<And>x. \<not> cmp x x" and trans: "\<And>x y z. cmp x y \<Longrightarrow> cmp y z \<Longrightarrow> cmp x z"
  shows "max_priority_queue (std_priority_queue cmp) cmp mset"
proof -
  have g: "pq_greatest cmp c \<in> set c \<and> (\<forall>y \<in> set c. \<not> cmp (pq_greatest cmp c) y)" if "c \<noteq> []" for c
  proof -
    from that obtain b xs where c: "c = b # xs" by (cases c) auto
    from fold_greatest[of cmp xs b, OF irrefl trans] show ?thesis
      unfolding c pq_greatest_def by simp
  qed
  show ?thesis
    unfolding max_priority_queue_def std_priority_queue_def
    using g by (auto simp: mset_remove1)
qed

lemmas pq_defs = PriorityQueueWrapper_def std_priority_queue_def pq_greatest_def

subsection \<open>Who holds the lock in a run\<close>

lemma exec_holds:
  assumes e: "exec Q ev sys = Some (r, sys')"
    and i: "owningThread (bq sys) = m (bq sys)"
    and n: "case waiting sys t of
              None \<Rightarrow> owns_lock t (bq sys) = h
            | Some locker \<Rightarrow> \<not> owns_lock t (bq sys) \<and> h = (\<not> locker)"
  shows "case waiting sys' t of
              None \<Rightarrow> owns_lock t (bq sys') = lock_step t h (ev, r)
            | Some locker \<Rightarrow> \<not> owns_lock t (bq sys') \<and> lock_step t h (ev, r) = (\<not> locker)"
proof (cases ev)
  case (Call u c)
  show ?thesis
  proof (cases c)
    case Clear
    with e i n Call show ?thesis
      by (auto simp: op_cases owns_lock_def unlock_eq unique_lock_dtor_def
          split: if_splits option.splits dest!: clear_impl_Return)
  next
    case Pop
    with e i n Call show ?thesis
      by (auto simp: op_cases owns_lock_def unlock_eq unique_lock_dtor_def
          split: if_splits option.splits)
  qed (use e i n Call in \<open>auto simp: op_cases owns_lock_def unlock_eq lock_eq try_lock_eq
          unique_lock_dtor_def split: if_splits option.splits\<close>)
next
  case (Wake u)
  with e i n show ?thesis
    by (auto simp: op_cases owns_lock_def unlock_eq unique_lock_dtor_def
        split: if_splits option.splits)
qed

lemma run_holds:
  assumes "run Q sched sys = Some (log, sys')"
    and "owningThread (bq sys) = m (bq sys)"
    and "case waiting sys t of
              None \<Rightarrow> owns_lock t (bq sys) = h
            | Some locker \<Rightarrow> \<not> owns_lock t (bq sys) \<and> h = (\<not> locker)"
  shows "case waiting sys' t of
              None \<Rightarrow> owns_lock t (bq sys') = foldl (lock_step t) h log
            | Some locker \<Rightarrow> \<not> owns_lock t (bq sys') \<and> foldl (lock_step t) h log = (\<not> locker)"
  using assms
proof (induction sched arbitrary: sys log h)
  case Nil
  then show ?case by (auto split: option.splits)
next
  case (Cons ev evs)
  from Cons.prems(1) obtain r sys1 log1 where
    e: "exec Q ev sys = Some (r, sys1)" and r: "run Q evs sys1 = Some (log1, sys')"
    and l: "log = (ev, r) # log1"
    unfolding run_Cons by blast
  from exec_lock_inv[OF e Cons.prems(2)] have i1: "owningThread (bq sys1) = m (bq sys1)" .
  from exec_holds[OF e Cons.prems(2,3)] have
    "case waiting sys1 t of
       None \<Rightarrow> owns_lock t (bq sys1) = lock_step t h (ev, r)
     | Some locker \<Rightarrow> \<not> owns_lock t (bq sys1) \<and> lock_step t h (ev, r) = (\<not> locker)" .
  from Cons.IH[OF r i1 this] show ?case by (simp only: l foldl_Cons)
qed

lemma exec_register:
  assumes e: "exec Q ev sys = Some (r, sys')"
    and i: "owningThread (bq sys) = m (bq sys)"
    and c: "owningThread (bq sys') \<noteq> owningThread (bq sys)"
  shows "owningThread (bq sys) = None \<and> owningThread (bq sys') = Some (thread_of ev) \<or>
     owningThread (bq sys) = Some (thread_of ev) \<and> owningThread (bq sys') = None"
proof (cases ev)
  case (Call u c)
  show ?thesis
  proof (cases c)
    case Clear
    with e i c Call show ?thesis
      by (auto simp: op_cases owns_lock_def unlock_eq unique_lock_dtor_def
          split: if_splits option.splits dest!: clear_impl_Return)
  qed (use e i c Call in \<open>auto simp: op_cases owns_lock_def unlock_eq lock_eq try_lock_eq
          unique_lock_dtor_def split: if_splits option.splits\<close>)
next
  case (Wake u)
  with e i c show ?thesis
    by (auto simp: op_cases owns_lock_def unlock_eq unique_lock_dtor_def
        split: if_splits option.splits)
qed

text \<open>
  While a thread holds the mutex, an event of a thread that the register does not name
  cannot take place, except for a \<^verbatim>\<open>try_lock()\<close> or \<^verbatim>\<open>owns_lock()\<close> that returns false
  and changes nothing; and it behaves in the same way whatever else the register holds.
  So the state between the two statements of \<^verbatim>\<open>lock()\<close> is for every other thread the
  state after them, and the state between the two statements of \<^verbatim>\<open>unlock()\<close> is for
  every other thread the state before them.
\<close>

lemma held_by_other:
  assumes "thread_of ev \<noteq> t" and "m s = Some t" and "owningThread s \<noteq> Some (thread_of ev)"
  shows "exec Q ev (sys\<lparr>bq := s\<rparr>) = None \<or>
     (\<exists>r. exec Q ev (sys\<lparr>bq := s\<rparr>) = Some (r, sys\<lparr>bq := s\<rparr>) \<and>
          (r = Flag False \<and> (\<exists>u. ev = Call u TryLock \<or> ev = Call u OwnsLock)))"
proof (cases ev)
  case (Call u c)
  with assms show ?thesis
    by (cases c) (auto simp: op_cases owns_lock_def lock_eq try_lock_eq split: option.splits)
next
  case (Wake u)
  with assms show ?thesis
    by (auto simp: op_cases split: option.splits)
qed

lemma held_by_other_same:
  assumes "thread_of ev \<noteq> t" and "m s = Some t" and "m s' = Some t"
    and "owningThread s \<noteq> Some (thread_of ev)" and "owningThread s' \<noteq> Some (thread_of ev)"
  shows "exec Q ev (sys\<lparr>bq := s\<rparr>) = None \<and> exec Q ev (sys\<lparr>bq := s'\<rparr>) = None \<or>
     (\<exists>r. exec Q ev (sys\<lparr>bq := s\<rparr>) = Some (r, sys\<lparr>bq := s\<rparr>) \<and>
          exec Q ev (sys\<lparr>bq := s'\<rparr>) = Some (r, sys\<lparr>bq := s'\<rparr>))"
proof (cases ev)
  case (Call u c)
  with assms show ?thesis
    by (cases c) (auto simp: op_cases owns_lock_def lock_eq try_lock_eq split: option.splits)
next
  case (Wake u)
  with assms show ?thesis
    by (auto simp: op_cases split: option.splits)
qed

lemma lock_window:
  assumes "thread_of ev \<noteq> t" and "mutex_lock t s = Some w" and "owningThread s = None"
  shows "exec Q ev (sys\<lparr>bq := w\<rparr>) = None \<and>
       exec Q ev (sys\<lparr>bq := owner_store (Some t) w\<rparr>) = None \<or>
     (\<exists>r. exec Q ev (sys\<lparr>bq := w\<rparr>) = Some (r, sys\<lparr>bq := w\<rparr>) \<and>
          exec Q ev (sys\<lparr>bq := owner_store (Some t) w\<rparr>) =
            Some (r, sys\<lparr>bq := owner_store (Some t) w\<rparr>))"
proof -
  from assms(2,3) have "m w = Some t" "owningThread w = None"
    by (auto simp: mutex_lock_def split: if_splits)
  with assms(1) show ?thesis
    by (intro held_by_other_same[of ev t]) (auto simp: owner_store_def)
qed

lemma unlock_window:
  assumes "thread_of ev \<noteq> t" and "m s = Some t" and "owningThread s = Some t"
  shows "exec Q ev (sys\<lparr>bq := s\<rparr>) = None \<and>
       exec Q ev (sys\<lparr>bq := owner_store None s\<rparr>) = None \<or>
     (\<exists>r. exec Q ev (sys\<lparr>bq := s\<rparr>) = Some (r, sys\<lparr>bq := s\<rparr>) \<and>
          exec Q ev (sys\<lparr>bq := owner_store None s\<rparr>) =
            Some (r, sys\<lparr>bq := owner_store None s\<rparr>))"
  using assms
  by (intro held_by_other_same[of ev t]) (auto simp: owner_store_def)

section \<open>The properties of the specification\<close>

text \<open>
  C1. With the default container \<^verbatim>\<open>std::queue\<close>, \<^verbatim>\<open>push_impl\<close> puts the item at the back
  and \<^verbatim>\<open>try_pop_impl\<close> and \<^verbatim>\<open>pop_impl\<close> return and remove the front element. A producer
  \<open>p\<close> that pushes the items and a consumer \<open>c\<close> that then pops as many times gets them in
  the order of the pushes: that run exists and delivers exactly the items. The calls may
  as well interleave, with pops that wait: in every run on a new queue in which no thread
  calls \<^verbatim>\<open>clear()\<close>, the items delivered so far, followed by the content of the
  container, are the items pushed, in the order of the pushes; so when as many items
  were delivered as were pushed, they were delivered in the order in which they were
  pushed.
\<close>

theorem fifo_order:
  "q (push_impl std_queue item s) = q s @ [item] \<and>
   (q s \<noteq> [] \<longrightarrow>
      try_pop_impl std_queue s = Return (hd (q s)) (s\<lparr>q := tl (q s)\<rparr>) \<and>
      pop_impl std_queue s = Return (hd (q s)) (s\<lparr>q := tl (q s)\<rparr>)) \<and>
   (\<exists>log1 sys1.
      run std_queue (map (\<lambda>x. Call p (Push x)) items @ replicate (length items) (Call c Pop))
        (system_new std_queue) = Some (log1, sys1) \<and>
      popped log1 = items \<and> q (bq sys1) = []) \<and>
   (run std_queue sched (system_new std_queue) = Some (log, sys) \<and> \<not> calls_clear sched \<longrightarrow>
      popped log @ q (bq sys) = pushed log \<and>
      (length (popped log) = length (pushed log) \<longrightarrow> popped log = pushed log))"
proof -
  have a: "q (push_impl std_queue item s) = q s @ [item]"
    by (simp add: push_impl_cases std_queue_def)
  have b: "q s \<noteq> [] \<longrightarrow>
      try_pop_impl std_queue s = Return (hd (q s)) (s\<lparr>q := tl (q s)\<rparr>) \<and>
      pop_impl std_queue s = Return (hd (q s)) (s\<lparr>q := tl (q s)\<rparr>)"
    by (simp add: try_pop_impl_cases pop_impl_cases std_queue_def)
  have c: "\<exists>log1 sys1.
      run std_queue (map (\<lambda>x. Call p (Push x)) items @ replicate (length items) (Call c Pop))
        (system_new std_queue) = Some (log1, sys1) \<and>
      popped log1 = items \<and> q (bq sys1) = []"
    using run_pushes_then_pops[of p items c] by blast
  have d: "run std_queue sched (system_new std_queue) = Some (log, sys) \<and> \<not> calls_clear sched \<longrightarrow>
      popped log @ q (bq sys) = pushed log \<and>
      (length (popped log) = length (pushed log) \<longrightarrow> popped log = pushed log)"
  proof (intro impI, elim conjE)
    assume r: "run std_queue sched (system_new std_queue) = Some (log, sys)"
      and nc: "\<not> calls_clear sched"
    from run_fifo[OF r nc] have e: "popped log @ q (bq sys) = pushed log"
      by (simp add: system_new_def BlockingQueue_new_def std_queue_def)
    then have "length (popped log) = length (pushed log) \<longrightarrow> popped log = pushed log"
      by (metis append_eq_append_conv append_Nil2)
    with e show "popped log @ q (bq sys) = pushed log \<and>
      (length (popped log) = length (pushed log) \<longrightarrow> popped log = pushed log)" ..
  qed
  from a b c d show ?thesis by (intro conjI)
qed

theorem fifo_order_witness:
  "run std_queue
     [Call 2 Pop, Call 1 (Push (10 :: nat)), Wake 2, Call 1 (Push 20), Call 1 (PushMove 30),
      Call 2 Pop, Call 2 TryPop]
     (system_new std_queue) =
   Some ([(Call 2 Pop, Suspended), (Call 1 (Push 10), Done), (Wake 2, Value 10),
          (Call 1 (Push 20), Done), (Call 1 (PushMove 30), Done), (Call 2 Pop, Value 20),
          (Call 2 TryPop, Value 30)],
         \<lparr>bq = \<lparr>q = [], m = None, cv = 2, owningThread = None\<rparr>, waiting = (\<lambda>t. None)\<rparr>) \<and>
   \<not> calls_clear [Call 2 Pop, Call 1 (Push (10 :: nat)), Wake 2, Call 1 (Push 20),
      Call 1 (PushMove 30), Call 2 Pop, Call 2 TryPop] \<and>
   popped [(Call 2 Pop, Suspended), (Call 1 (Push (10 :: nat)), Done), (Wake 2, Value 10),
          (Call 1 (Push 20), Done), (Call 1 (PushMove 30), Done), (Call 2 Pop, Value 20),
          (Call 2 TryPop, Value 30)] = [10, 20, 30] \<and>
   try_pop_impl std_queue \<lparr>q = [20, 30 :: nat], m = Some 2, cv = 2, owningThread = Some 2\<rparr> =
     Return 20 \<lparr>q = [30], m = Some 2, cv = 2, owningThread = Some 2\<rparr>"
proof -
  let ?sched = "[Call 2 Pop, Call 1 (Push (10 :: nat)), Wake 2, Call 1 (Push 20),
      Call 1 (PushMove 30), Call 2 Pop, Call 2 TryPop]"
  let ?log = "[(Call 2 Pop, Suspended), (Call 1 (Push (10 :: nat)), Done), (Wake 2, Value 10),
          (Call 1 (Push 20), Done), (Call 1 (PushMove 30), Done), (Call 2 Pop, Value 20),
          (Call 2 TryPop, Value 30)]"
  let ?sys = "\<lparr>bq = \<lparr>q = ([] :: nat list), m = None, cv = 2, owningThread = None\<rparr>,
      waiting = (\<lambda>t. None)\<rparr>"
  have r: "run std_queue ?sched (system_new std_queue) = Some (?log, ?sys)"
    by (simp add: model_defs)
  have nc: "\<not> calls_clear ?sched"
    by (simp add: calls_clear_def)
  note fifo_order [of _ _ _ _ _ ?sched ?log ?sys, THEN conjunct2, THEN conjunct2, THEN conjunct2,
      THEN mp, OF conjI, OF r nc, THEN conjunct1]
  then have "popped ?log @ q (bq ?sys) = pushed ?log" .
  then have "popped ?log = [10, 20, 30]"
    by (simp add: pushed_def)
  with r nc show ?thesis
    by (simp add: try_pop_impl_def empty_impl_def std_queue_def)
qed

text \<open>
  C2. \<^verbatim>\<open>try_pop()\<close> throws the EmptyQueue error exactly when the container is empty at
  the time the call has the lock (it owns the queue already, or the mutex is free and it
  takes it); on a non-empty container it returns the front element and removes it. No
  other operation throws: neither \<^verbatim>\<open>push\<close> (both overloads), \<^verbatim>\<open>pop\<close> (before or after
  its wait), \<^verbatim>\<open>clear\<close>, \<^verbatim>\<open>empty\<close>, \<^verbatim>\<open>lock\<close> nor \<^verbatim>\<open>try_lock\<close>; and in every run of
  any number of threads, an event that fails is a \<^verbatim>\<open>try_pop()\<close> call failing with
  EmptyQueue.
\<close>

theorem try_pop_raises_iff_empty:
  "((\<exists>s'. try_pop_impl Q s = Throw EmptyQueue s') \<longleftrightarrow> q_empty Q (q s)) \<and>
   (owns_lock t s \<or> m s = None \<longrightarrow>
      ((\<exists>s'. try_pop Q t s = Throw EmptyQueue s') \<longleftrightarrow> q_empty Q (q s)) \<and>
      (\<not> q_empty Q (q s) \<longrightarrow>
         (\<exists>s'. try_pop Q t s = Return (q_front Q (q s)) s' \<and> q s' = q_pop Q (q s)))) \<and>
   push Q item t s \<noteq> Throw e s1 \<and> push_move Q item t s \<noteq> Throw e s1 \<and>
   pop Q t s \<noteq> Throw e s2 \<and> pop_wake Q t locker s \<noteq> Throw e s2 \<and>
   clear Q t s \<noteq> Some (Throw e s1) \<and> empty_bq Q t s \<noteq> Throw e s3 \<and>
   lock t s \<noteq> Throw e s1 \<and> try_lock t s \<noteq> Throw e s3 \<and>
   (run Q sched sys = Some (log, sys') \<and> (ev, Failed e) \<in> set log \<longrightarrow>
      e = EmptyQueue \<and> (\<exists>u. ev = Call u TryPop))"
proof -
  have a: "(\<exists>s'. try_pop_impl Q s = Throw EmptyQueue s') \<longleftrightarrow> q_empty Q (q s)"
    by (simp add: try_pop_impl_cases)
  have b: "owns_lock t s \<or> m s = None \<longrightarrow>
      ((\<exists>s'. try_pop Q t s = Throw EmptyQueue s') \<longleftrightarrow> q_empty Q (q s)) \<and>
      (\<not> q_empty Q (q s) \<longrightarrow>
         (\<exists>s'. try_pop Q t s = Return (q_front Q (q s)) s' \<and> q s' = q_pop Q (q s)))"
    by (auto simp: try_pop_cases try_pop_impl_cases unique_lock_dtor_def unlock_eq)
  have c: "push Q item t s \<noteq> Throw e s1" "push_move Q item t s \<noteq> Throw e s1"
    by (simp_all add: push_cases push_move_cases)
  have d: "pop Q t s \<noteq> Throw e s2" "pop_wake Q t locker s \<noteq> Throw e s2"
    by (simp_all add: pop_cases pop_wake_cases pop_impl_cases)
  have f: "clear Q t s \<noteq> Some (Throw e s1)"
    by (auto simp: clear_cases dest!: clear_impl_Return)
  have g: "empty_bq Q t s \<noteq> Throw e s3" "lock t s \<noteq> Throw e s1" "try_lock t s \<noteq> Throw e s3"
    by (simp_all add: empty_bq_cases lock_eq try_lock_eq)
  have h: "run Q sched sys = Some (log, sys') \<and> (ev, Failed e) \<in> set log \<longrightarrow>
      e = EmptyQueue \<and> (\<exists>u. ev = Call u TryPop)"
    using run_Failed by blast
  from a b c d f g h show ?thesis by blast
qed

theorem try_pop_raises_iff_empty_witness:
  "try_pop std_queue 1 (BlockingQueue_new std_queue) =
     Throw EmptyQueue (BlockingQueue_new (std_queue :: (nat, nat list) Queue)) \<and>
   try_pop std_queue 1 \<lparr>q = [7, 8 :: nat], m = None, cv = 0, owningThread = None\<rparr> =
     Return 7 \<lparr>q = [8], m = None, cv = 0, owningThread = None\<rparr> \<and>
   map_option fst (run std_queue [Call 1 (Push (7 :: nat)), Call 2 TryPop, Call 2 TryPop]
       (system_new std_queue)) =
     Some [(Call 1 (Push 7), Done), (Call 2 TryPop, Value 7), (Call 2 TryPop, Failed EmptyQueue)]"
  using try_pop_raises_iff_empty [of "std_queue :: (nat, nat list) Queue"
      "\<lparr>q = [7, 8], m = None, cv = 0, owningThread = None\<rparr>" 1]
  by (simp add: model_defs)

text \<open>
  C3. \<^verbatim>\<open>pop()\<close> never throws, neither at once nor after it has waited. When
  \<^verbatim>\<open>cv.wait\<close> lets \<^verbatim>\<open>pop_impl\<close> proceed the container is not empty, so the
  \<^verbatim>\<open>try_pop_impl\<close> that follows returns the front element and removes it; whenever
  \<^verbatim>\<open>pop()\<close> returns, before or after a wait, it returns the front element of the
  container as it was then and has removed it. A \<^verbatim>\<open>pop()\<close> whose caller has or can take
  the lock returns if the container is not empty and is suspended in the wait if it is.
\<close>

theorem pop_never_fails:
  "pop Q t s \<noteq> Throw e s' \<and> pop_wake Q t locker s \<noteq> Throw e s' \<and>
   pop_impl Q s \<noteq> Throw e s' \<and> pop_impl_wake Q t s \<noteq> Throw e s' \<and>
   (cv_wait Q s = Return u s1 \<longrightarrow>
      s1 = s \<and> \<not> empty_impl Q s1 \<and>
      try_pop_impl Q s1 = Return (q_front Q (q s1)) (s1\<lparr>q := q_pop Q (q s1)\<rparr>)) \<and>
   (pop Q t s = Return x s' \<longrightarrow>
      \<not> q_empty Q (q s) \<and> x = q_front Q (q s) \<and> q s' = q_pop Q (q s)) \<and>
   (pop_wake Q t locker s = Return x s' \<longrightarrow>
      \<not> q_empty Q (q s) \<and> x = q_front Q (q s) \<and> q s' = q_pop Q (q s)) \<and>
   ((owns_lock t s \<or> m s = None) \<and> \<not> q_empty Q (q s) \<longrightarrow>
      (\<exists>s2. pop Q t s = Return (q_front Q (q s)) s2)) \<and>
   ((owns_lock t s \<or> m s = None) \<and> q_empty Q (q s) \<longrightarrow>
      (\<exists>s2. pop Q t s = WaitingOnCv s2 \<and> q s2 = q s \<and> m s2 = None \<and> owningThread s2 = None)) \<and>
   (run Q sched sys = Some (log, sys') \<and> (ev, Failed e) \<in> set log \<longrightarrow>
      ev \<noteq> Call t Pop \<and> ev \<noteq> Wake t)"
proof -
  have a: "pop Q t s \<noteq> Throw e s'" "pop_wake Q t locker s \<noteq> Throw e s'"
    "pop_impl Q s \<noteq> Throw e s'" "pop_impl_wake Q t s \<noteq> Throw e s'"
    by (simp_all add: pop_cases pop_wake_cases pop_impl_cases pop_impl_wake_def lock_eq)
  have b: "cv_wait Q s = Return u s1 \<longrightarrow>
      s1 = s \<and> \<not> empty_impl Q s1 \<and>
      try_pop_impl Q s1 = Return (q_front Q (q s1)) (s1\<lparr>q := q_pop Q (q s1)\<rparr>)"
    by (auto simp: cv_wait_def try_pop_impl_cases empty_impl_def split: if_splits)
  have c: "pop Q t s = Return x s' \<longrightarrow>
      \<not> q_empty Q (q s) \<and> x = q_front Q (q s) \<and> q s' = q_pop Q (q s)"
    by (auto simp: pop_cases pop_impl_cases unique_lock_dtor_def unlock_eq split: if_splits)
  have d: "pop_wake Q t locker s = Return x s' \<longrightarrow>
      \<not> q_empty Q (q s) \<and> x = q_front Q (q s) \<and> q s' = q_pop Q (q s)"
    by (auto simp: pop_wake_cases pop_impl_cases unique_lock_dtor_def unlock_eq split: if_splits)
  have f: "(owns_lock t s \<or> m s = None) \<and> \<not> q_empty Q (q s) \<longrightarrow>
      (\<exists>s2. pop Q t s = Return (q_front Q (q s)) s2)"
    by (auto simp: pop_cases pop_impl_cases)
  have g: "(owns_lock t s \<or> m s = None) \<and> q_empty Q (q s) \<longrightarrow>
      (\<exists>s2. pop Q t s = WaitingOnCv s2 \<and> q s2 = q s \<and> m s2 = None \<and> owningThread s2 = None)"
    by (auto simp: pop_cases pop_impl_cases unlock_eq)
  have h: "run Q sched sys = Some (log, sys') \<and> (ev, Failed e) \<in> set log \<longrightarrow>
      ev \<noteq> Call t Pop \<and> ev \<noteq> Wake t"
    using run_Failed[of Q sched sys log sys' ev e] by auto
  from a b c d f g h show ?thesis by blast
qed

theorem pop_never_fails_witness:
  "pop std_queue 1 \<lparr>q = [7, 8 :: nat], m = None, cv = 0, owningThread = None\<rparr> =
     Return 7 \<lparr>q = [8], m = None, cv = 0, owningThread = None\<rparr> \<and>
   pop std_queue 1 \<lparr>q = ([] :: nat list), m = Some 1, cv = 0, owningThread = Some 1\<rparr> =
     WaitingOnCv \<lparr>q = [], m = None, cv = 0, owningThread = None\<rparr> \<and>
   pop_wake std_queue 1 False \<lparr>q = [9 :: nat], m = None, cv = 1, owningThread = None\<rparr> =
     Return 9 \<lparr>q = [], m = Some 1, cv = 1, owningThread = Some 1\<rparr> \<and>
   map_option fst (run std_queue [Call 2 Pop, Call 1 (Push (9 :: nat)), Wake 2, Call 2 TryPop]
       (system_new std_queue)) =
     Some [(Call 2 Pop, Suspended), (Call 1 (Push 9), Done), (Wake 2, Value 9),
           (Call 2 TryPop, Failed EmptyQueue)]"
proof -
  let ?Q = "std_queue :: (nat, nat list) Queue"
  let ?s = "\<lparr>q = [7, 8 :: nat], m = None, cv = 0, owningThread = None\<rparr>"
  have "(owns_lock 1 ?s \<or> m ?s = None) \<and> \<not> q_empty ?Q (q ?s)"
    by (simp add: model_defs)
  with pop_never_fails [of ?Q 1 ?s]
  have "\<exists>s2. pop ?Q 1 ?s = Return (q_front ?Q (q ?s)) s2"
    by blast
  then show ?thesis
    by (simp add: model_defs)
qed

text \<open>
  C4. \<^verbatim>\<open>push_impl\<close>, in both overloads, inserts the item with the container's \<^verbatim>\<open>push\<close>
  and calls \<^verbatim>\<open>cv.notify_one()\<close> once if the container was empty before the insertion,
  and not at all if it was not; so does every \<^verbatim>\<open>push()\<close> call that returns, and a
  \<^verbatim>\<open>push()\<close> whose caller has or can take the lock returns.
\<close>

theorem push_notifies_iff_was_empty:
  "q (push_impl Q item s) = q_push Q item (q s) \<and>
   cv (push_impl Q item s) = (if q_empty Q (q s) then cv s + 1 else cv s) \<and>
   q (push_impl_move Q item s) = q_push Q item (q s) \<and>
   cv (push_impl_move Q item s) = (if q_empty Q (q s) then cv s + 1 else cv s) \<and>
   (push Q item t s = Return u s' \<longrightarrow>
      q s' = q_push Q item (q s) \<and> cv s' = (if q_empty Q (q s) then cv s + 1 else cv s)) \<and>
   (push_move Q item t s = Return u s' \<longrightarrow>
      q s' = q_push Q item (q s) \<and> cv s' = (if q_empty Q (q s) then cv s + 1 else cv s)) \<and>
   (owns_lock t s \<or> m s = None \<longrightarrow>
      (\<exists>s1. push Q item t s = Return () s1) \<and> (\<exists>s1. push_move Q item t s = Return () s1))"
  by (auto simp: push_cases push_move_cases push_impl_cases push_impl_move_eq unlock_eq
      split: if_splits)

theorem push_notifies_iff_was_empty_witness:
  "push std_queue (3 :: nat) 1 (BlockingQueue_new std_queue) =
     Return () \<lparr>q = [3], m = None, cv = 1, owningThread = None\<rparr> \<and>
   push std_queue 4 1 \<lparr>q = [3 :: nat], m = None, cv = 1, owningThread = None\<rparr> =
     Return () \<lparr>q = [3, 4], m = None, cv = 1, owningThread = None\<rparr> \<and>
   push_move std_queue 4 1 \<lparr>q = [3 :: nat], m = Some 1, cv = 1, owningThread = Some 1\<rparr> =
     Return () \<lparr>q = [3, 4], m = Some 1, cv = 1, owningThread = Some 1\<rparr>"
proof -
  let ?Q = "std_queue :: (nat, nat list) Queue"
  let ?s = "BlockingQueue_new ?Q"
  let ?s' = "\<lparr>q = [3 :: nat], m = None, cv = 1, owningThread = None\<rparr>"
  have p: "push ?Q 3 1 ?s = Return () ?s'"
    by (simp add: model_defs)
  with push_notifies_iff_was_empty [of ?Q 3 ?s 1 "()" ?s']
  have "q ?s' = q_push ?Q 3 (q ?s) \<and> cv ?s' = (if q_empty ?Q (q ?s) then cv ?s + 1 else cv ?s)"
    by blast
  with p show ?thesis
    by (simp add: model_defs)
qed

text \<open>
  C5. A new queue is unowned, with its mutex free. \<^verbatim>\<open>lock()\<close> and a \<^verbatim>\<open>try_lock()\<close> that
  succeeds take the free mutex and record the caller; \<^verbatim>\<open>lock()\<close> blocks and
  \<^verbatim>\<open>try_lock()\<close> returns false, recording nothing, while the mutex is held;
  \<^verbatim>\<open>unlock()\<close> clears the register and frees the mutex; \<^verbatim>\<open>owns_lock()\<close> compares the
  register with the caller, so it is true for at most one thread. In every state that a
  run of any threads reaches from a new queue: the register names exactly the thread that
  holds the mutex; for a thread \<open>t\<close> that is not suspended in \<^verbatim>\<open>pop()\<close>, \<^verbatim>\<open>owns_lock()\<close> is
  true exactly when \<open>t\<close> holds the lock by its own calls (its last \<^verbatim>\<open>lock()\<close> or
  successful \<^verbatim>\<open>try_lock()\<close> is not followed by its \<^verbatim>\<open>unlock()\<close>), and a thread suspended in
  \<^verbatim>\<open>pop()\<close> is not the owner; and an event changes the register only from unowned to its
  own thread or from its own thread to unowned.
\<close>

theorem owner_register_invariant:
  "owningThread (BlockingQueue_new Q) = None \<and> m (BlockingQueue_new Q) = None \<and>
   (owns_lock t s \<longleftrightarrow> owningThread s = Some t) \<and>
   (owns_lock t s \<and> u \<noteq> t \<longrightarrow> \<not> owns_lock u s) \<and>
   (m s = None \<longrightarrow>
      lock t s = Return () (s\<lparr>m := Some t, owningThread := Some t\<rparr>) \<and>
      try_lock t s = Return True (s\<lparr>m := Some t, owningThread := Some t\<rparr>)) \<and>
   (m s \<noteq> None \<longrightarrow> lock t s = BlockedOnMutex \<and> try_lock t s = Return False s) \<and>
   unlock s = s\<lparr>owningThread := None, m := None\<rparr> \<and>
   (run Q sched (system_new Q) = Some (log, sys) \<longrightarrow>
      owningThread (bq sys) = m (bq sys) \<and>
      (waiting sys t = None \<longrightarrow> owns_lock t (bq sys) = holds_lock t log) \<and>
      (waiting sys t \<noteq> None \<longrightarrow> \<not> owns_lock t (bq sys)) \<and>
      (exec Q ev sys = Some (r, sys') \<and> owningThread (bq sys') \<noteq> owningThread (bq sys) \<longrightarrow>
         owningThread (bq sys) = None \<and> owningThread (bq sys') = Some (thread_of ev) \<or>
         owningThread (bq sys) = Some (thread_of ev) \<and> owningThread (bq sys') = None))"
proof -
  have a: "owningThread (BlockingQueue_new Q) = None" "m (BlockingQueue_new Q) = None"
    by (simp_all add: BlockingQueue_new_def)
  have b: "owns_lock t s \<longleftrightarrow> owningThread s = Some t"
    "owns_lock t s \<and> u \<noteq> t \<longrightarrow> \<not> owns_lock u s"
    by (simp_all add: owns_lock_def)
  have c: "m s = None \<longrightarrow>
      lock t s = Return () (s\<lparr>m := Some t, owningThread := Some t\<rparr>) \<and>
      try_lock t s = Return True (s\<lparr>m := Some t, owningThread := Some t\<rparr>)"
    "m s \<noteq> None \<longrightarrow> lock t s = BlockedOnMutex \<and> try_lock t s = Return False s"
    "unlock s = s\<lparr>owningThread := None, m := None\<rparr>"
    by (simp_all add: lock_eq try_lock_eq unlock_eq)
  have d: "owningThread (bq sys) = m (bq sys) \<and>
      (waiting sys t = None \<longrightarrow> owns_lock t (bq sys) = holds_lock t log) \<and>
      (waiting sys t \<noteq> None \<longrightarrow> \<not> owns_lock t (bq sys)) \<and>
      (exec Q ev sys = Some (r, sys') \<and> owningThread (bq sys') \<noteq> owningThread (bq sys) \<longrightarrow>
         owningThread (bq sys) = None \<and> owningThread (bq sys') = Some (thread_of ev) \<or>
         owningThread (bq sys) = Some (thread_of ev) \<and> owningThread (bq sys') = None)"
    if r: "run Q sched (system_new Q) = Some (log, sys)"
  proof -
    from run_lock_inv[OF r system_new_lock_inv] have i: "owningThread (bq sys) = m (bq sys)" .
    have "case waiting (system_new Q) t of
              None \<Rightarrow> owns_lock t (bq (system_new Q)) = False
            | Some locker \<Rightarrow> \<not> owns_lock t (bq (system_new Q)) \<and> False = (\<not> locker)"
      by (simp add: system_new_def BlockingQueue_new_def owns_lock_def)
    from run_holds[OF r system_new_lock_inv this] have
      h: "case waiting sys t of
              None \<Rightarrow> owns_lock t (bq sys) = holds_lock t log
            | Some locker \<Rightarrow> \<not> owns_lock t (bq sys) \<and> holds_lock t log = (\<not> locker)"
      unfolding holds_lock_def .
    then have h1: "waiting sys t = None \<longrightarrow> owns_lock t (bq sys) = holds_lock t log"
      and h2: "waiting sys t \<noteq> None \<longrightarrow> \<not> owns_lock t (bq sys)"
      by (auto split: option.splits)
    have e: "exec Q ev sys = Some (r, sys') \<and> owningThread (bq sys') \<noteq> owningThread (bq sys) \<longrightarrow>
         owningThread (bq sys) = None \<and> owningThread (bq sys') = Some (thread_of ev) \<or>
         owningThread (bq sys) = Some (thread_of ev) \<and> owningThread (bq sys') = None"
      using exec_register[of Q ev sys r sys', OF _ i] by blast
    from i h1 h2 e show ?thesis by (intro conjI)
  qed
  from a b c d show ?thesis by (intro conjI impI) blast+
qed

theorem owner_register_invariant_witness:
  "run std_queue
     [Call 3 Pop, Call 1 Lock, Call 2 TryLock, Call 2 OwnsLock, Call 1 OwnsLock,
      Call 1 (Push (8 :: nat)), Call 1 Unlock, Call 2 TryLock, Call 1 OwnsLock]
     (system_new std_queue) =
   Some ([(Call 3 Pop, Suspended), (Call 1 Lock, Done), (Call 2 TryLock, Flag False),
          (Call 2 OwnsLock, Flag False), (Call 1 OwnsLock, Flag True), (Call 1 (Push 8), Done),
          (Call 1 Unlock, Done), (Call 2 TryLock, Flag True), (Call 1 OwnsLock, Flag False)],
         \<lparr>bq = \<lparr>q = [8], m = Some 2, cv = 1, owningThread = Some 2\<rparr>,
            waiting = (\<lambda>t. None)(3 := Some True)\<rparr>) \<and>
   owns_lock 2 \<lparr>q = [8 :: nat], m = Some 2, cv = 1, owningThread = Some 2\<rparr> \<and>
   holds_lock 2 [(Call 3 Pop, Suspended), (Call 1 Lock, Done), (Call 2 TryLock, Flag False),
          (Call 2 OwnsLock, Flag False), (Call 1 OwnsLock, Flag True),
          (Call 1 (Push (8 :: nat)), Done), (Call 1 Unlock, Done), (Call 2 TryLock, Flag True),
          (Call 1 OwnsLock, Flag False)] \<and>
   \<not> owns_lock 3 \<lparr>q = [8 :: nat], m = Some 2, cv = 1, owningThread = Some 2\<rparr>"
proof -
  let ?Q = "std_queue :: (nat, nat list) Queue"
  let ?sched = "[Call 3 Pop, Call 1 Lock, Call 2 TryLock, Call 2 OwnsLock, Call 1 OwnsLock,
      Call 1 (Push (8 :: nat)), Call 1 Unlock, Call 2 TryLock, Call 1 OwnsLock]"
  let ?log = "[(Call 3 Pop, Suspended), (Call 1 Lock, Done), (Call 2 TryLock, Flag False),
          (Call 2 OwnsLock, Flag False), (Call 1 OwnsLock, Flag True),
          (Call 1 (Push (8 :: nat)), Done), (Call 1 Unlock, Done), (Call 2 TryLock, Flag True),
          (Call 1 OwnsLock, Flag False)]"
  let ?s = "\<lparr>q = [8 :: nat], m = Some 2, cv = 1, owningThread = Some 2\<rparr>"
  let ?sys = "\<lparr>bq = ?s, waiting = (\<lambda>t. None)(3 := Some True)\<rparr>"
  have r: "run ?Q ?sched (system_new ?Q) = Some (?log, ?sys)"
    by (simp add: model_defs)
  have w: "waiting ?sys 2 = None" and w3: "waiting ?sys 3 \<noteq> None"
    by simp_all
  note T = owner_register_invariant [of ?Q _ _ _ ?sched ?log ?sys, THEN conjunct2, THEN conjunct2,
      THEN conjunct2, THEN conjunct2, THEN conjunct2, THEN conjunct2, THEN conjunct2, THEN mp,
      OF r, THEN conjunct2]
  from T [THEN conjunct1, THEN mp, of 2, OF w]
  have 2: "owns_lock 2 (bq ?sys) = holds_lock 2 ?log" .
  from T [THEN conjunct2, THEN conjunct1, THEN mp, of 3, OF w3]
  have 3: "\<not> owns_lock 3 (bq ?sys)" .
  have "owns_lock 2 (bq ?sys)"
    by (simp add: owns_lock_def)
  with 2 have "holds_lock 2 ?log"
    by simp
  with r 3 show ?thesis
    by (simp add: owns_lock_def)
qed

text \<open>
  C6. Each of \<^verbatim>\<open>push\<close> (both overloads), \<^verbatim>\<open>pop\<close>, \<^verbatim>\<open>try_pop\<close>, \<^verbatim>\<open>clear\<close> and \<^verbatim>\<open>empty\<close>
  starts with \<^verbatim>\<open>get_lock()\<close>, which tests \<^verbatim>\<open>owns_lock()\<close>. When the caller owns the queue
  the operation is its impl method on the queue as it is, with no \<^verbatim>\<open>lock()\<close> before it
  and no \<^verbatim>\<open>unlock()\<close> after it (\<^verbatim>\<open>pop_impl\<close> itself gives the lock up while it waits
  for an item and takes it again before it goes on). When the caller does not own the
  queue and \<^verbatim>\<open>lock()\<close> returns, the impl method runs on the locked queue and
  \<^verbatim>\<open>unlock()\<close> runs when the operation returns and when it throws.
  When \<^verbatim>\<open>lock()\<close> blocks, the operation blocks without effect. Hence, whenever an
  operation returns or throws, the mutex and the owner register are as at the call if
  the caller owned the queue, and free otherwise; and a \<^verbatim>\<open>pop()\<close> that had to wait
  leaves the queue locked by the caller if it owned it at the call, and free otherwise.
\<close>

theorem reentrancy_rule:
  "(owns_lock t s \<longrightarrow>
      get_lock t s = Return False s \<and>
      push Q item t s = Return () (push_impl Q item s) \<and>
      push_move Q item t s = Return () (push_impl_move Q item s) \<and>
      pop Q t s = pop_impl Q s \<and>
      try_pop Q t s = try_pop_impl Q s \<and>
      clear Q t s = clear_impl Q s \<and>
      empty_bq Q t s = Return (empty_impl Q s) s) \<and>
   (\<not> owns_lock t s \<and> lock t s = Return () s1 \<longrightarrow>
      get_lock t s = Return True s1 \<and> owns_lock t s1 \<and>
      push Q item t s = Return () (unlock (push_impl Q item s1)) \<and>
      push_move Q item t s = Return () (unlock (push_impl_move Q item s1)) \<and>
      pop Q t s = scope_exit True (pop_impl Q s1) \<and>
      try_pop Q t s = scope_exit True (try_pop_impl Q s1) \<and>
      clear Q t s = map_option (scope_exit True) (clear_impl Q s1) \<and>
      empty_bq Q t s = Return (empty_impl Q s1) (unlock s1)) \<and>
   (\<not> owns_lock t s \<and> lock t s = BlockedOnMutex \<longrightarrow>
      get_lock t s = BlockedOnMutex \<and>
      push Q item t s = BlockedOnMutex \<and> push_move Q item t s = BlockedOnMutex \<and>
      pop Q t s = BlockedOnMutex \<and> try_pop Q t s = BlockedOnMutex \<and>
      clear Q t s = Some BlockedOnMutex \<and> empty_bq Q t s = BlockedOnMutex) \<and>
   scope_exit True (Return x s2) = Return x (unlock s2) \<and>
   scope_exit True (Throw e s2) = Throw e (unlock s2) \<and>
   scope_exit False (Return x s2) = Return x s2 \<and>
   scope_exit False (Throw e s2) = Throw e s2 \<and>
   (push Q item t s = Return u s' \<or> push_move Q item t s = Return u s' \<or>
    pop Q t s = Return x s' \<or> try_pop Q t s = Return x s' \<or> try_pop Q t s = Throw e s' \<or>
    clear Q t s = Some (Return u s') \<or> empty_bq Q t s = Return b s' \<longrightarrow>
      (if owns_lock t s then m s' = m s \<and> owningThread s' = owningThread s
       else m s' = None \<and> owningThread s' = None)) \<and>
   (pop_wake Q t locker s = Return x s' \<longrightarrow>
      (if locker then m s' = None \<and> owningThread s' = None
       else m s' = Some t \<and> owningThread s' = Some t))"
proof -
  have a: "owns_lock t s \<longrightarrow>
      get_lock t s = Return False s \<and>
      push Q item t s = Return () (push_impl Q item s) \<and>
      push_move Q item t s = Return () (push_impl_move Q item s) \<and>
      pop Q t s = pop_impl Q s \<and>
      try_pop Q t s = try_pop_impl Q s \<and>
      clear Q t s = clear_impl Q s \<and>
      empty_bq Q t s = Return (empty_impl Q s) s"
    by (simp add: get_lock_cases push_cases push_move_cases pop_cases try_pop_cases clear_cases
        empty_bq_cases)
  have l: "lock t s = Return () s1 \<longleftrightarrow> m s = None \<and> s1 = s\<lparr>m := Some t, owningThread := Some t\<rparr>"
    by (auto simp: lock_eq)
  have b: "\<not> owns_lock t s \<and> lock t s = Return () s1 \<longrightarrow>
      get_lock t s = Return True s1 \<and> owns_lock t s1 \<and>
      push Q item t s = Return () (unlock (push_impl Q item s1)) \<and>
      push_move Q item t s = Return () (unlock (push_impl_move Q item s1)) \<and>
      pop Q t s = scope_exit True (pop_impl Q s1) \<and>
      try_pop Q t s = scope_exit True (try_pop_impl Q s1) \<and>
      clear Q t s = map_option (scope_exit True) (clear_impl Q s1) \<and>
      empty_bq Q t s = Return (empty_impl Q s1) (unlock s1)"
    unfolding l
    by (simp add: get_lock_cases push_cases push_move_cases pop_cases try_pop_cases clear_cases
        empty_bq_cases owns_lock_def empty_impl_def)
  have c: "\<not> owns_lock t s \<and> lock t s = BlockedOnMutex \<longrightarrow>
      get_lock t s = BlockedOnMutex \<and>
      push Q item t s = BlockedOnMutex \<and> push_move Q item t s = BlockedOnMutex \<and>
      pop Q t s = BlockedOnMutex \<and> try_pop Q t s = BlockedOnMutex \<and>
      clear Q t s = Some BlockedOnMutex \<and> empty_bq Q t s = BlockedOnMutex"
    by (simp add: lock_eq get_lock_cases push_cases push_move_cases pop_cases try_pop_cases
        clear_cases empty_bq_cases split: if_splits)
  have d: "scope_exit True (Return x s2) = Return x (unlock s2)"
    "scope_exit True (Throw e s2) = Throw e (unlock s2)"
    "scope_exit False (Return x s2) = Return x s2"
    "scope_exit False (Throw e s2) = Throw e s2"
    by (simp_all add: unique_lock_dtor_def)
  have f: "push Q item t s = Return u s' \<or> push_move Q item t s = Return u s' \<or>
    pop Q t s = Return x s' \<or> try_pop Q t s = Return x s' \<or> try_pop Q t s = Throw e s' \<or>
    clear Q t s = Some (Return u s') \<or> empty_bq Q t s = Return b s' \<longrightarrow>
      (if owns_lock t s then m s' = m s \<and> owningThread s' = owningThread s
       else m s' = None \<and> owningThread s' = None)"
  proof (intro impI, elim disjE)
    assume "clear Q t s = Some (Return u s')"
    then show "if owns_lock t s then m s' = m s \<and> owningThread s' = owningThread s
       else m s' = None \<and> owningThread s' = None"
      by (auto simp: clear_cases unique_lock_dtor_def unlock_eq split: if_splits
          dest!: clear_impl_Return)
  qed (auto simp: push_cases push_move_cases pop_cases try_pop_cases empty_bq_cases
      push_impl_cases push_impl_move_eq pop_impl_cases try_pop_impl_cases unique_lock_dtor_def
      unlock_eq split: if_splits)
  have g: "pop_wake Q t locker s = Return x s' \<longrightarrow>
      (if locker then m s' = None \<and> owningThread s' = None
       else m s' = Some t \<and> owningThread s' = Some t)"
    by (auto simp: pop_wake_cases pop_impl_cases unique_lock_dtor_def unlock_eq split: if_splits)
  from a b c d f g show ?thesis by (intro conjI)
qed

theorem reentrancy_rule_witness:
  "owns_lock 1 \<lparr>q = ([] :: nat list), m = Some 1, cv = 0, owningThread = Some 1\<rparr> \<and>
   try_pop std_queue 1 \<lparr>q = ([] :: nat list), m = Some 1, cv = 0, owningThread = Some 1\<rparr> =
     Throw EmptyQueue \<lparr>q = [], m = Some 1, cv = 0, owningThread = Some 1\<rparr> \<and>
   push std_queue (4 :: nat) 1 \<lparr>q = [], m = Some 1, cv = 0, owningThread = Some 1\<rparr> =
     Return () \<lparr>q = [4], m = Some 1, cv = 1, owningThread = Some 1\<rparr> \<and>
   \<not> owns_lock 2 \<lparr>q = ([] :: nat list), m = None, cv = 0, owningThread = None\<rparr> \<and>
   lock 2 \<lparr>q = ([] :: nat list), m = None, cv = 0, owningThread = None\<rparr> =
     Return () \<lparr>q = [], m = Some 2, cv = 0, owningThread = Some 2\<rparr> \<and>
   try_pop std_queue 2 \<lparr>q = ([] :: nat list), m = None, cv = 0, owningThread = None\<rparr> =
     Throw EmptyQueue \<lparr>q = [], m = None, cv = 0, owningThread = None\<rparr> \<and>
   push std_queue (4 :: nat) 2 \<lparr>q = [], m = Some 1, cv = 0, owningThread = Some 1\<rparr> =
     BlockedOnMutex \<and>
   pop std_queue 1 \<lparr>q = ([] :: nat list), m = Some 1, cv = 0, owningThread = Some 1\<rparr> =
     WaitingOnCv \<lparr>q = [], m = None, cv = 0, owningThread = None\<rparr> \<and>
   pop_wake std_queue 1 False \<lparr>q = [5 :: nat], m = None, cv = 1, owningThread = None\<rparr> =
     Return 5 \<lparr>q = [], m = Some 1, cv = 1, owningThread = Some 1\<rparr> \<and>
   pop_wake std_queue 2 True \<lparr>q = [5 :: nat], m = None, cv = 1, owningThread = None\<rparr> =
     Return 5 \<lparr>q = [], m = None, cv = 1, owningThread = None\<rparr>"
proof -
  let ?Q = "std_queue :: (nat, nat list) Queue"
  let ?s = "\<lparr>q = ([] :: nat list), m = Some 1, cv = 0, owningThread = Some 1\<rparr>"
  let ?n = "\<lparr>q = ([] :: nat list), m = None, cv = 0, owningThread = None\<rparr>"
  let ?l = "\<lparr>q = ([] :: nat list), m = Some 2, cv = 0, owningThread = Some 2\<rparr>"
  have o: "owns_lock 1 ?s"
    by (simp add: owns_lock_def)
  have n: "\<not> owns_lock 2 ?n \<and> lock 2 ?n = Return () ?l"
    by (simp add: owns_lock_def lock_eq)
  have b: "\<not> owns_lock 2 ?s \<and> lock 2 ?s = BlockedOnMutex"
    by (simp add: owns_lock_def lock_eq)
  note reentrancy_rule [of 1 ?s ?Q, THEN conjunct1, THEN mp, OF o]
  then have 1: "try_pop ?Q 1 ?s = try_pop_impl ?Q ?s" "push ?Q 4 1 ?s = Return () (push_impl ?Q 4 ?s)"
    by blast+
  note reentrancy_rule [of 2 ?n ?Q _ ?l, THEN conjunct2, THEN conjunct1, THEN mp, OF n]
  then have 2: "try_pop ?Q 2 ?n = scope_exit True (try_pop_impl ?Q ?l)"
    by blast
  note reentrancy_rule [of 2 ?s ?Q 4, THEN conjunct2, THEN conjunct2, THEN conjunct1, THEN mp, OF b]
  then have 3: "push ?Q 4 2 ?s = BlockedOnMutex"
    by blast
  from o n 1 2 3 show ?thesis
    by (simp add: model_defs)
qed

text \<open>
  C7. Whatever the container, as long as it keeps its elements as a bag
  (\<^verbatim>\<open>std::queue\<close> does, lemma \<open>std_queue_bag\<close>, and so does a priority queue behind
  \<^verbatim>\<open>PriorityQueueWrapper\<close>, lemma \<open>wrapper_bag\<close>), and whatever the threads and the order in
  which their calls take effect: in every run on a new
  queue, the items delivered by \<^verbatim>\<open>pop()\<close> and \<^verbatim>\<open>try_pop()\<close> together with the items in
  the container are among the items pushed, each as often as it was pushed; when no
  thread calls \<^verbatim>\<open>clear()\<close> (producers and consumers only) they are exactly the items
  pushed, so every pushed item is either still in the container or was delivered by
  exactly one call; and once the container is empty the items delivered are the items
  pushed, as multisets.
\<close>

theorem conservation:
  "bag_queue Q \<alpha> \<and> run Q sched (system_new Q) = Some (log, sys) \<longrightarrow>
     mset (popped log) + \<alpha> (q (bq sys)) \<subseteq># mset (pushed log) \<and>
     (\<not> calls_clear sched \<longrightarrow> mset (popped log) + \<alpha> (q (bq sys)) = mset (pushed log)) \<and>
     (\<not> calls_clear sched \<and> q_empty Q (q (bq sys)) \<longrightarrow> mset (popped log) = mset (pushed log))"
proof (intro impI, elim conjE)
  assume b: "bag_queue Q \<alpha>" and r: "run Q sched (system_new Q) = Some (log, sys)"
  from b have e: "\<alpha> (q (bq (system_new Q))) = {#}"
    by (simp add: bag_queue_def system_new_def BlockingQueue_new_def)
  from b have z: "q_empty Q (q (bq sys)) \<longrightarrow> \<alpha> (q (bq sys)) = {#}"
    by (simp add: bag_queue_def)
  from run_bag_le[OF b r] e have 1: "mset (popped log) + \<alpha> (q (bq sys)) \<subseteq># mset (pushed log)"
    by simp
  have 2: "\<not> calls_clear sched \<longrightarrow> mset (popped log) + \<alpha> (q (bq sys)) = mset (pushed log)"
    using run_bag_eq[OF b r] e by simp
  with z have 3: "\<not> calls_clear sched \<and> q_empty Q (q (bq sys)) \<longrightarrow> mset (popped log) = mset (pushed log)"
    by auto
  from 1 2 3 show "mset (popped log) + \<alpha> (q (bq sys)) \<subseteq># mset (pushed log) \<and>
     (\<not> calls_clear sched \<longrightarrow> mset (popped log) + \<alpha> (q (bq sys)) = mset (pushed log)) \<and>
     (\<not> calls_clear sched \<and> q_empty Q (q (bq sys)) \<longrightarrow> mset (popped log) = mset (pushed log))"
    by (intro conjI)
qed

theorem conservation_witness:
  "bag_queue (std_queue :: (nat, nat list) Queue) mset \<and>
   run std_queue
     [Call 3 Pop, Call 4 Pop, Call 1 (Push (1 :: nat)), Call 2 (Push 6), Wake 4, Call 2 (Push 7),
      Call 1 (Push 2), Wake 3, Call 4 TryPop, Call 3 Pop, Call 4 TryPop]
     (system_new std_queue) =
   Some ([(Call 3 Pop, Suspended), (Call 4 Pop, Suspended), (Call 1 (Push 1), Done),
          (Call 2 (Push 6), Done), (Wake 4, Value 1), (Call 2 (Push 7), Done),
          (Call 1 (Push 2), Done), (Wake 3, Value 6), (Call 4 TryPop, Value 7),
          (Call 3 Pop, Value 2), (Call 4 TryPop, Failed EmptyQueue)],
         \<lparr>bq = \<lparr>q = [], m = None, cv = 1, owningThread = None\<rparr>, waiting = (\<lambda>t. None)\<rparr>) \<and>
   mset [1, 6, 7, 2 :: nat] = mset [1, 6, 7, 2]"
proof -
  let ?Q = "std_queue :: (nat, nat list) Queue"
  let ?sched = "[Call 3 Pop, Call 4 Pop, Call 1 (Push (1 :: nat)), Call 2 (Push 6), Wake 4,
      Call 2 (Push 7), Call 1 (Push 2), Wake 3, Call 4 TryPop, Call 3 Pop, Call 4 TryPop]"
  let ?log = "[(Call 3 Pop, Suspended), (Call 4 Pop, Suspended), (Call 1 (Push (1 :: nat)), Done),
          (Call 2 (Push 6), Done), (Wake 4, Value 1), (Call 2 (Push 7), Done),
          (Call 1 (Push 2), Done), (Wake 3, Value 6), (Call 4 TryPop, Value 7),
          (Call 3 Pop, Value 2), (Call 4 TryPop, Failed EmptyQueue)]"
  let ?sys = "\<lparr>bq = \<lparr>q = ([] :: nat list), m = None, cv = 1, owningThread = None\<rparr>,
      waiting = (\<lambda>t. None)\<rparr>"
  have b: "bag_queue ?Q mset"
    by (rule std_queue_bag)
  have r: "run ?Q ?sched (system_new ?Q) = Some (?log, ?sys)"
    by (simp add: model_defs)
  have nc: "\<not> calls_clear ?sched \<and> q_empty ?Q (q (bq ?sys))"
    by (simp add: calls_clear_def std_queue_def)
  note conservation [of ?Q mset ?sched ?log ?sys, THEN mp, OF conjI, OF b r, THEN conjunct2,
      THEN conjunct2, THEN mp, OF nc]
  then have "mset (popped ?log) = mset (pushed ?log)" .
  then have "mset [1, 6, 7, 2 :: nat] = mset [1, 6, 7, 2]"
    by (simp add: pushed_def popped_def)
  with b r show ?thesis
    by simp
qed

text \<open>
  C8. For every container that keeps its elements as a bag, the loop of \<^verbatim>\<open>clear_impl\<close>
  ends, with the container empty and the mutex, the owner register and the condition
  variable as they were; \<^verbatim>\<open>clear()\<close> returns for a caller that has or can take the
  lock, an \<^verbatim>\<open>empty()\<close> call right after it returns true (for the same thread, and as
  the next event of any thread in a run), and the items pushed after \<^verbatim>\<open>clear()\<close> has
  returned are all in the container. With \<^verbatim>\<open>std::queue\<close>, \<^verbatim>\<open>clear_impl\<close> returns
  the queue with the empty sequence and nothing else changed, and the items pushed
  afterwards are its content, in their order.
\<close>

theorem clear_empties_the_queue:
  "(bag_queue Q \<alpha> \<longrightarrow>
      (\<exists>s1. clear_impl Q s = Some (Return () s1) \<and> q_empty Q (q s1) \<and> m s1 = m s \<and>
            cv s1 = cv s \<and> owningThread s1 = owningThread s) \<and>
      (owns_lock t s \<or> m s = None \<longrightarrow>
         (\<exists>s1. clear Q t s = Some (Return () s1) \<and> q_empty Q (q s1) \<and>
               empty_bq Q t s1 = Return True s1 \<and>
               (\<forall>items. \<alpha> (q (fold (push_impl Q) items s1)) = mset items)))) \<and>
   (exec Q (Call t Clear) sys = Some (r, sys1) \<and> exec Q (Call u IsEmpty) sys1 = Some (r', sys2) \<longrightarrow>
      r = Done \<and> r' = Flag True) \<and>
   clear_impl std_queue s0 = Some (Return () (s0\<lparr>q := []\<rparr>)) \<and>
   q (fold (push_impl std_queue) items0 (s0\<lparr>q := []\<rparr>)) = items0"
proof -
  have a: "\<exists>s1. clear_impl Q s = Some (Return () s1) \<and> q_empty Q (q s1) \<and> m s1 = m s \<and>
            cv s1 = cv s \<and> owningThread s1 = owningThread s" if b: "bag_queue Q \<alpha>"
  proof -
    from clear_impl_terminates[OF b, of s] obtain s1 where
      c: "clear_impl Q s = Some (Return () s1)" by blast
    from clear_impl_Return[OF c] c show ?thesis by simp
  qed
  have b: "\<exists>s1. clear Q t s = Some (Return () s1) \<and> q_empty Q (q s1) \<and>
               empty_bq Q t s1 = Return True s1 \<and>
               (\<forall>items. \<alpha> (q (fold (push_impl Q) items s1)) = mset items)"
    if b: "bag_queue Q \<alpha>" and l: "owns_lock t s \<or> m s = None"
  proof -
    from clear_returns[OF b l] obtain s1 where
      c: "clear Q t s = Some (Return () s1)" and e: "q_empty Q (q s1)"
      and o: "owns_lock t s \<longrightarrow> m s1 = m s \<and> owningThread s1 = owningThread s"
      and n: "\<not> owns_lock t s \<longrightarrow> m s1 = None \<and> owningThread s1 = None"
      by blast
    from o n e have "empty_bq Q t s1 = Return True s1"
      by (cases "owns_lock t s") (auto simp: empty_bq_cases empty_impl_def owns_lock_def unlock_eq)
    moreover from b e have "\<alpha> (q s1) = {#}" by (simp add: bag_queue_def)
    then have "\<forall>items. \<alpha> (q (fold (push_impl Q) items s1)) = mset items"
      by (simp add: fold_push_impl_bag[OF b])
    ultimately show ?thesis using c e by blast
  qed
  have c: "exec Q (Call t Clear) sys = Some (r, sys1) \<and> exec Q (Call u IsEmpty) sys1 = Some (r', sys2) \<longrightarrow>
      r = Done \<and> r' = Flag True"
    using exec_clear_then_empty by blast
  have d: "clear_impl std_queue s0 = Some (Return () (s0\<lparr>q := []\<rparr>))"
    by (rule clear_impl_std_queue)
  have e: "q (fold (push_impl std_queue) items0 (s0\<lparr>q := []\<rparr>)) = items0"
    by (simp add: fold_push_impl_fifo)
  from a b c d e show ?thesis by blast
qed

theorem clear_empties_the_queue_witness:
  "bag_queue (std_queue :: (nat, nat list) Queue) mset \<and>
   clear std_queue 1 \<lparr>q = [4, 5, 6 :: nat], m = None, cv = 1, owningThread = None\<rparr> =
     Some (Return () \<lparr>q = [], m = None, cv = 1, owningThread = None\<rparr>) \<and>
   empty_bq std_queue 1 \<lparr>q = ([] :: nat list), m = None, cv = 1, owningThread = None\<rparr> =
     Return True \<lparr>q = [], m = None, cv = 1, owningThread = None\<rparr> \<and>
   push std_queue 7 2 \<lparr>q = ([] :: nat list), m = None, cv = 1, owningThread = None\<rparr> =
     Return () \<lparr>q = [7], m = None, cv = 2, owningThread = None\<rparr> \<and>
   run std_queue
     [Call 1 (Push (4 :: nat)), Call 1 (Push 5), Call 2 Clear, Call 3 IsEmpty, Call 1 (Push 6),
      Call 3 Pop]
     (system_new std_queue) =
   Some ([(Call 1 (Push 4), Done), (Call 1 (Push 5), Done), (Call 2 Clear, Done),
          (Call 3 IsEmpty, Flag True), (Call 1 (Push 6), Done), (Call 3 Pop, Value 6)],
         \<lparr>bq = \<lparr>q = [], m = None, cv = 2, owningThread = None\<rparr>, waiting = (\<lambda>t. None)\<rparr>)"
proof -
  let ?Q = "std_queue :: (nat, nat list) Queue"
  let ?s = "\<lparr>q = [4, 5, 6 :: nat], m = None, cv = 1, owningThread = None\<rparr>"
  have b: "bag_queue ?Q mset"
    by (rule std_queue_bag)
  have l: "owns_lock 1 ?s \<or> m ?s = None"
    by simp
  note clear_empties_the_queue [of ?Q mset ?s 1, THEN conjunct1, THEN mp, OF b, THEN conjunct2,
      THEN mp, OF l]
  then have c: "\<exists>s1. clear ?Q 1 ?s = Some (Return () s1) \<and> q_empty ?Q (q s1)"
    by blast
  from b c show ?thesis
    by (simp add: model_defs clear_cases clear_impl_std_queue [unfolded std_queue_def])
qed

text \<open>
  C9. \<^verbatim>\<open>PriorityQueueWrapper\<close> changes nothing of the priority queue it inherits from and
  adds \<^verbatim>\<open>front()\<close>, which is its \<^verbatim>\<open>top()\<close>. So for a priority queue with comparator
  \<open>cmp\<close>, \<^verbatim>\<open>front()\<close> of a non-empty wrapper is one of the elements, and none of the
  elements is greater; it is a function of the container, which it leaves as it is. Every
  \<^verbatim>\<open>try_pop()\<close> and \<^verbatim>\<open>pop()\<close> of a \<^verbatim>\<open>BlockingPriorityQueue\<close> that returns, \<^verbatim>\<open>pop()\<close> before
  or after a wait, returns such a greatest element and has removed one copy of it; and
  they return \<^verbatim>\<open>top()\<close> of the container when it is not empty and the caller has or can
  take the lock.
\<close>

theorem priority_front_is_greatest:
  "max_priority_queue P cmp \<alpha> \<longrightarrow>
     q_front (PriorityQueueWrapper P) = pq_top P \<and> q_push (PriorityQueueWrapper P) = pq_push P \<and>
     q_pop (PriorityQueueWrapper P) = pq_pop P \<and> q_empty (PriorityQueueWrapper P) = pq_empty P \<and>
     q_new (PriorityQueueWrapper P) = pq_new P \<and>
     (\<not> q_empty (PriorityQueueWrapper P) c \<longrightarrow>
        q_front (PriorityQueueWrapper P) c \<in># \<alpha> c \<and>
        (\<forall>y. y \<in># \<alpha> c \<longrightarrow> \<not> cmp (q_front (PriorityQueueWrapper P) c) y)) \<and>
     (try_pop (PriorityQueueWrapper P) t s = Return x s' \<or>
      pop (PriorityQueueWrapper P) t s = Return x s' \<or>
      pop_wake (PriorityQueueWrapper P) t locker s = Return x s' \<longrightarrow>
        x \<in># \<alpha> (q s) \<and> (\<forall>y. y \<in># \<alpha> (q s) \<longrightarrow> \<not> cmp x y) \<and> \<alpha> (q s') = \<alpha> (q s) - {#x#}) \<and>
     ((owns_lock t s \<or> m s = None) \<and> \<not> pq_empty P (q s) \<longrightarrow>
        (\<exists>s1. try_pop (PriorityQueueWrapper P) t s = Return (pq_top P (q s)) s1) \<and>
        (\<exists>s1. pop (PriorityQueueWrapper P) t s = Return (pq_top P (q s)) s1))"
proof
  assume p: "max_priority_queue P cmp \<alpha>"
  let ?W = "PriorityQueueWrapper P"
  have w: "q_front ?W = pq_top P" "q_push ?W = pq_push P" "q_pop ?W = pq_pop P"
    "q_empty ?W = pq_empty P" "q_new ?W = pq_new P"
    by (simp_all add: PriorityQueueWrapper_def)
  from p have top: "\<not> pq_empty P c \<Longrightarrow>
      pq_top P c \<in># \<alpha> c \<and> (\<forall>y. y \<in># \<alpha> c \<longrightarrow> \<not> cmp (pq_top P c) y) \<and>
      \<alpha> (pq_pop P c) = \<alpha> c - {#pq_top P c#}" for c
    by (simp add: max_priority_queue_def)
  have a: "\<not> q_empty ?W c \<longrightarrow>
        q_front ?W c \<in># \<alpha> c \<and> (\<forall>y. y \<in># \<alpha> c \<longrightarrow> \<not> cmp (q_front ?W c) y)"
    using top[of c] by (simp add: w)
  have r: "x = pq_top P (q s) \<and> q s' = pq_pop P (q s) \<and> \<not> pq_empty P (q s)"
    if "try_pop ?W t s = Return x s' \<or> pop ?W t s = Return x s' \<or>
      pop_wake ?W t locker s = Return x s'"
    using that
    by (auto simp: try_pop_cases pop_cases pop_wake_cases try_pop_impl_cases pop_impl_cases w
        unique_lock_dtor_def unlock_eq split: if_splits)
  have b: "try_pop ?W t s = Return x s' \<or> pop ?W t s = Return x s' \<or>
      pop_wake ?W t locker s = Return x s' \<longrightarrow>
        x \<in># \<alpha> (q s) \<and> (\<forall>y. y \<in># \<alpha> (q s) \<longrightarrow> \<not> cmp x y) \<and> \<alpha> (q s') = \<alpha> (q s) - {#x#}"
  proof
    assume "try_pop ?W t s = Return x s' \<or> pop ?W t s = Return x s' \<or>
      pop_wake ?W t locker s = Return x s'"
    from r[OF this] top[of "q s"] show
      "x \<in># \<alpha> (q s) \<and> (\<forall>y. y \<in># \<alpha> (q s) \<longrightarrow> \<not> cmp x y) \<and> \<alpha> (q s') = \<alpha> (q s) - {#x#}"
      by simp
  qed
  have c: "(owns_lock t s \<or> m s = None) \<and> \<not> pq_empty P (q s) \<longrightarrow>
        (\<exists>s1. try_pop ?W t s = Return (pq_top P (q s)) s1) \<and>
        (\<exists>s1. pop ?W t s = Return (pq_top P (q s)) s1)"
    by (auto simp: try_pop_cases pop_cases try_pop_impl_cases pop_impl_cases w)
  from w a b c show "q_front ?W = pq_top P \<and> q_push ?W = pq_push P \<and>
     q_pop ?W = pq_pop P \<and> q_empty ?W = pq_empty P \<and> q_new ?W = pq_new P \<and>
     (\<not> q_empty ?W c \<longrightarrow>
        q_front ?W c \<in># \<alpha> c \<and> (\<forall>y. y \<in># \<alpha> c \<longrightarrow> \<not> cmp (q_front ?W c) y)) \<and>
     (try_pop ?W t s = Return x s' \<or> pop ?W t s = Return x s' \<or>
      pop_wake ?W t locker s = Return x s' \<longrightarrow>
        x \<in># \<alpha> (q s) \<and> (\<forall>y. y \<in># \<alpha> (q s) \<longrightarrow> \<not> cmp x y) \<and> \<alpha> (q s') = \<alpha> (q s) - {#x#}) \<and>
     ((owns_lock t s \<or> m s = None) \<and> \<not> pq_empty P (q s) \<longrightarrow>
        (\<exists>s1. try_pop ?W t s = Return (pq_top P (q s)) s1) \<and>
        (\<exists>s1. pop ?W t s = Return (pq_top P (q s)) s1))"
    by (intro conjI)
qed

theorem priority_front_is_greatest_witness:
  "max_priority_queue (std_priority_queue (<)) (<) (mset :: nat list \<Rightarrow> nat multiset) \<and>
   q (push_impl (PriorityQueueWrapper (std_priority_queue (<))) 3
       (push_impl (PriorityQueueWrapper (std_priority_queue (<))) 5
          (push_impl (PriorityQueueWrapper (std_priority_queue (<))) (1 :: nat)
             (BlockingQueue_new (PriorityQueueWrapper (std_priority_queue (<))))))) = [3, 5, 1] \<and>
   q_front (PriorityQueueWrapper (std_priority_queue (<))) [3, 5, 1 :: nat] = 5 \<and>
   try_pop (PriorityQueueWrapper (std_priority_queue (<))) 1
       \<lparr>q = [3, 5, 1 :: nat], m = None, cv = 1, owningThread = None\<rparr> =
     Return 5 \<lparr>q = [3, 1], m = None, cv = 1, owningThread = None\<rparr> \<and>
   pop (PriorityQueueWrapper (std_priority_queue (<))) 1
       \<lparr>q = [3, 1 :: nat], m = None, cv = 1, owningThread = None\<rparr> =
     Return 3 \<lparr>q = [1], m = None, cv = 1, owningThread = None\<rparr>"
proof -
  let ?P = "std_priority_queue (<) :: (nat, nat list) PriorityQueue"
  let ?s = "\<lparr>q = [3, 5, 1 :: nat], m = None, cv = 1, owningThread = None\<rparr>"
  let ?s' = "\<lparr>q = [3, 1 :: nat], m = None, cv = 1, owningThread = None\<rparr>"
  have p: "max_priority_queue ?P (<) mset"
    by (rule std_priority_queue_max) auto
  have t: "try_pop (PriorityQueueWrapper ?P) 1 ?s = Return 5 ?s'"
    by (simp add: model_defs pq_defs)
  note priority_front_is_greatest [of ?P "(<)" mset _ 1 ?s 5 ?s', THEN mp, OF p]
  then have "try_pop (PriorityQueueWrapper ?P) 1 ?s = Return 5 ?s' \<or>
      pop (PriorityQueueWrapper ?P) 1 ?s = Return 5 ?s' \<or>
      pop_wake (PriorityQueueWrapper ?P) 1 locker ?s = Return 5 ?s' \<longrightarrow>
        5 \<in># mset (q ?s) \<and> (\<forall>y. y \<in># mset (q ?s) \<longrightarrow> \<not> 5 < y) \<and>
        mset (q ?s') = mset (q ?s) - {#5#}" for locker
    by blast
  with t have "5 \<in># mset (q ?s) \<and> (\<forall>y. y \<in># mset (q ?s) \<longrightarrow> \<not> 5 < y)"
    by blast
  with p t show ?thesis
    by (simp add: model_defs pq_defs)
qed

text \<open>
  C10. When \<^verbatim>\<open>try_pop()\<close> throws, the container and the condition variable are as before
  the call, and in a state where the owner register agrees with the mutex (every state a
  run reaches is such) the whole queue, the owner register included, is as before the
  call: \<^verbatim>\<open>try_pop_impl\<close> throws before it touches the container, and a lock taken for the
  call is released again.
\<close>

theorem try_pop_error_changes_nothing:
  "(try_pop_impl Q s = Throw e s' \<longrightarrow> s' = s) \<and>
   (try_pop Q t s = Throw e s' \<longrightarrow>
      q s' = q s \<and> cv s' = cv s \<and> (owningThread s = m s \<longrightarrow> s' = s)) \<and>
   (run Q sched (system_new Q) = Some (log, sys) \<and> try_pop Q t (bq sys) = Throw e s' \<longrightarrow>
      s' = bq sys \<and> owningThread s' = owningThread (bq sys) \<and> q s' = q (bq sys))"
proof -
  have a: "try_pop_impl Q s = Throw e s' \<longrightarrow> s' = s" for s s'
    by (simp add: try_pop_impl_cases split: if_splits)
  have b: "try_pop Q t s = Throw e s' \<longrightarrow>
      q s' = q s \<and> cv s' = cv s \<and> (owningThread s = m s \<longrightarrow> s' = s)" for s s'
    by (auto simp: try_pop_cases try_pop_impl_cases unique_lock_dtor_def unlock_eq owns_lock_def
        split: if_splits)
  have c: "run Q sched (system_new Q) = Some (log, sys) \<and> try_pop Q t (bq sys) = Throw e s' \<longrightarrow>
      s' = bq sys \<and> owningThread s' = owningThread (bq sys) \<and> q s' = q (bq sys)"
  proof (intro impI, elim conjE)
    assume r: "run Q sched (system_new Q) = Some (log, sys)"
      and t: "try_pop Q t (bq sys) = Throw e s'"
    from run_lock_inv[OF r system_new_lock_inv] have "owningThread (bq sys) = m (bq sys)" .
    with b[of "bq sys" s'] t have "s' = bq sys" by simp
    then show "s' = bq sys \<and> owningThread s' = owningThread (bq sys) \<and> q s' = q (bq sys)" by simp
  qed
  from a b c show ?thesis by blast
qed

theorem try_pop_error_changes_nothing_witness:
  "run std_queue [Call 1 (Push (5 :: nat)), Call 2 Pop, Call 2 Lock] (system_new std_queue) =
     Some ([(Call 1 (Push 5), Done), (Call 2 Pop, Value 5), (Call 2 Lock, Done)],
           \<lparr>bq = \<lparr>q = [], m = Some 2, cv = 1, owningThread = Some 2\<rparr>, waiting = (\<lambda>t. None)\<rparr>) \<and>
   try_pop std_queue 2 \<lparr>q = ([] :: nat list), m = Some 2, cv = 1, owningThread = Some 2\<rparr> =
     Throw EmptyQueue \<lparr>q = [], m = Some 2, cv = 1, owningThread = Some 2\<rparr> \<and>
   try_pop std_queue 1 (BlockingQueue_new std_queue) =
     Throw EmptyQueue (BlockingQueue_new (std_queue :: (nat, nat list) Queue))"
proof -
  let ?Q = "std_queue :: (nat, nat list) Queue"
  let ?sched = "[Call 1 (Push (5 :: nat)), Call 2 Pop, Call 2 Lock]"
  let ?log = "[(Call 1 (Push (5 :: nat)), Done), (Call 2 Pop, Value 5), (Call 2 Lock, Done)]"
  let ?s = "\<lparr>q = ([] :: nat list), m = Some 2, cv = 1, owningThread = Some 2\<rparr>"
  let ?sys = "\<lparr>bq = ?s, waiting = (\<lambda>t. None)\<rparr>"
  have r: "run ?Q ?sched (system_new ?Q) = Some (?log, ?sys)"
    by (simp add: model_defs)
  have t: "try_pop ?Q 2 (bq ?sys) = Throw EmptyQueue ?s"
    by (simp add: model_defs)
  from try_pop_error_changes_nothing [of ?Q _ EmptyQueue ?s 2 ?sched ?log ?sys] r t
  have "?s = bq ?sys"
    by blast
  with r t show ?thesis
    by (simp add: model_defs)
qed

end
